theory Spec2Isabelle
  imports Main "HOL-Library.Word"
begin

section \<open>The NVMe hotplug example (examples/nvme/hotplug/hotplug.c)\<close>

text \<open>
  The program is a single-threaded polling loop over a list of devices. Its C functions
  are embedded one by one, under their own names, as functions on an explicit program
  state \<open>world\<close>. Everything the NVMe driver, the allocator and the clock decide is an
  argument of the function that asks for it: the value a driver call returns, the
  completions a poll delivers, the hotplug events a probe reports.
\<close>

subsection \<open>Data model\<close>

type_synonym u32 = "32 word"
type_synonym u64 = "64 word"

text \<open>
  What the driver answers about namespace 1 of a controller:
  \<open>spdk_nvme_ns_is_active\<close>, \<open>spdk_nvme_ns_get_size\<close> (bytes, uint64_t) and
  \<open>spdk_nvme_ns_get_sector_size\<close> (bytes, uint32_t).
\<close>

record spdk_nvme_ns =
  ns_is_active :: bool
  ns_get_size :: u64
  ns_get_sector_size :: u32

text \<open>
  A controller as the driver hands it to \<open>attach_cb\<close>: the pointer itself
  (\<open>ctrlr_ptr\<close>, compared by \<open>remove_cb\<close>), the model and serial number of its
  identify data, the result of \<open>spdk_nvme_ctrlr_get_ns(ctrlr, 1)\<close> (\<open>None\<close> is NULL) and
  the pointer \<open>spdk_nvme_ctrlr_alloc_io_qpair(ctrlr, 0)\<close> returns (0 is NULL).
\<close>

record spdk_nvme_ctrlr =
  ctrlr_ptr :: nat
  cdata_mn :: string
  cdata_sn :: string
  ctrlr_get_ns :: "spdk_nvme_ns option"
  ctrlr_alloc_io_qpair :: nat

text \<open>\<open>struct dev_ctx\<close>, without its list linkage.\<close>

record dev_ctx =
  is_new :: bool
  is_removed :: bool
  is_draining :: bool
  ctrlr :: nat
  ns :: "spdk_nvme_ns option"
  qpair :: nat
  io_size_blocks :: u32
  size_in_ios :: u64
  io_completed :: u64
  prev_io_completed :: u64
  current_queue_depth :: u64
  offset_in_ios :: u64
  name :: string

text \<open>\<open>struct perf_task\<close>: the owning device (a pointer) and the buffer.\<close>

record perf_task =
  task_dev :: nat
  task_buf :: nat

text \<open>What the program prints, one constructor for each message of the source.\<close>

datatype message =
    Dev_ctx_malloc
  | No_active_namespace string
  | Invalid_ns_size string u64 u32 u32
  | Alloc_io_qpair_failed
  | Unregister_dev string
  | Task_pool_get_failed
  | Starting_io_failed
  | Stats_line string u64 u64
  | Stats_end
  | Attaching_to
  | Attached_to
  | Controller_removed string
  | Probe_failed
  | Usage string
  | Initializing_controllers
  | Initialization_complete
  | Dpdk_init_failed
  | Task_buf_malloc_failed

text \<open>
  The calls the program makes that leave a mark outside its own variables, in the order
  it makes them. \<open>Free p d\<close> is \<open>free(dev)\<close> of the descriptor at \<open>p\<close>; \<open>d\<close> records
  the fields the descriptor held at that moment.
\<close>

datatype call =
    Print message
  | Ctrlr_alloc_io_qpair nat
  | Ctrlr_free_io_qpair nat
  | Nvme_detach nat
  | Ns_cmd_read nat nat u64 u32
  | Free nat dev_ctx

text \<open>
  The program state. \<open>g_devs\<close> is the tail queue of descriptors, head first, each with
  the address \<open>calloc\<close> gave it. \<open>task_pool\<close> holds the free tasks of the mempool.
  \<open>inflight\<close> is the driver's side of the queue pairs: the reads it has accepted and not
  yet completed, each with its queue pair and its completion context (the task).
  \<open>calls\<close> is the log of external calls. \<open>g_time_in_sec\<close> is a C int.
\<close>

record world =
  g_devs :: "(nat \<times> dev_ctx) list"
  task_pool :: "perf_task list"
  inflight :: "(nat \<times> perf_task) list"
  calls :: "call list"
  g_tsc_rate :: u64
  g_time_in_sec :: int

text \<open>
  How a function can end other than by returning: \<open>exit(code)\<close>, a division by zero,
  and a read or write through a pointer to no live descriptor.
\<close>

datatype error = Exit int | Divide_by_zero | Bad_pointer

type_synonym 'a result = "(error \<times> world) + 'a"

definition g_io_size_bytes :: u32 where
  "g_io_size_bytes = 4096"

definition g_queue_depth :: int where
  "g_queue_depth = 4"

definition emit :: "call list \<Rightarrow> world \<Rightarrow> world" where
  "emit cs s = s\<lparr>calls := calls s @ cs\<rparr>"

text \<open>The descriptor at an address, and a write to it.\<close>

definition deref :: "world \<Rightarrow> nat \<Rightarrow> dev_ctx option" where
  "deref s p = map_of (g_devs s) p"

definition store :: "nat \<Rightarrow> dev_ctx \<Rightarrow> world \<Rightarrow> world" where
  "store p d s = s\<lparr>g_devs := map (\<lambda>(q, e). if q = p then (q, d) else (q, e)) (g_devs s)\<rparr>"

subsection \<open>register_dev and unregister_dev\<close>

text \<open>
  \<open>calloc\<close> returns an address that no live descriptor has. Every live descriptor is
  in \<open>g_devs\<close> (a descriptor that \<open>register_dev\<close> skips is freed before it returns),
  so one more than the largest address in use is such an address; an address that was
  freed can come back.
\<close>

definition calloc_dev :: "world \<Rightarrow> nat" where
  "calloc_dev s = Suc (fold max (map fst (g_devs s)) 0)"

text \<open>\<open>%-20.20s\<close>: at most 20 characters, padded with spaces on the right to 20.\<close>

definition fmt20 :: "string \<Rightarrow> string" where
  "fmt20 x = take 20 x @ replicate (20 - length x) CHR '' ''"

definition dev_name :: "spdk_nvme_ctrlr \<Rightarrow> string" where
  "dev_name c = fmt20 (cdata_mn c) @ '' ('' @ fmt20 (cdata_sn c) @ '')''"

text \<open>The descriptor after \<open>calloc\<close> and the assignments before the first check.\<close>

definition new_dev :: "spdk_nvme_ctrlr \<Rightarrow> dev_ctx" where
  "new_dev c =
     \<lparr>is_new = True, is_removed = False, is_draining = False,
      ctrlr = ctrlr_ptr c, ns = ctrlr_get_ns c, qpair = 0,
      io_size_blocks = 0, size_in_ios = 0, io_completed = 0, prev_io_completed = 0,
      current_queue_depth = 0, offset_in_ios = 0, name = dev_name c\<rparr>"

text \<open>
  \<open>register_dev\<close>. \<open>calloc_ok\<close> says whether \<open>calloc\<close> succeeds. The label \<open>skip\<close>
  frees the descriptor. The two comparisons are made in uint64_t and in uint32_t as in
  C; the division by the sector size traps when the sector size is 0.
\<close>

definition register_dev :: "spdk_nvme_ctrlr \<Rightarrow> bool \<Rightarrow> world \<Rightarrow> world result" where
  "register_dev c calloc_ok s =
     (if \<not> calloc_ok then Inl (Exit 1, emit [Print Dev_ctx_malloc] s)
      else
        let p = calloc_dev s; dev = new_dev c in
        case ns dev of
          None \<Rightarrow> Inr (emit [Print (No_active_namespace (name dev)), Free p dev] s)
        | Some n \<Rightarrow>
            if \<not> ns_is_active n
            then Inr (emit [Print (No_active_namespace (name dev)), Free p dev] s)
            else if ns_get_size n < ucast g_io_size_bytes \<or>
                    ns_get_sector_size n > g_io_size_bytes
            then Inr (emit [Print (Invalid_ns_size (name dev) (ns_get_size n)
                                     (ns_get_sector_size n) g_io_size_bytes),
                            Free p dev] s)
            else if ns_get_sector_size n = 0 then Inl (Divide_by_zero, s)
            else
              let dev1 = dev\<lparr>size_in_ios := ns_get_size n div ucast g_io_size_bytes\<rparr>;
                  dev2 = dev1\<lparr>io_size_blocks := g_io_size_bytes div ns_get_sector_size n\<rparr>;
                  s1 = emit [Ctrlr_alloc_io_qpair (ctrlr_ptr c)] s;
                  dev3 = dev2\<lparr>qpair := ctrlr_alloc_io_qpair c\<rparr>
              in if qpair dev3 = 0
                 then Inr (emit [Print Alloc_io_qpair_failed, Free p dev3] s1)
                 else Inr (s1\<lparr>g_devs := g_devs s1 @ [(p, dev3)]\<rparr>))"

text \<open>
  \<open>unregister_dev\<close>: print, free the queue pair, detach the controller, unlink the
  descriptor and free it.
\<close>

definition unregister_dev :: "nat \<Rightarrow> world \<Rightarrow> world result" where
  "unregister_dev p s =
     (case deref s p of
        None \<Rightarrow> Inl (Bad_pointer, s)
      | Some dev \<Rightarrow>
          let s1 = emit [Print (Unregister_dev (name dev)), Ctrlr_free_io_qpair (qpair dev),
                         Nvme_detach (ctrlr dev)] s;
              s2 = s1\<lparr>g_devs := filter (\<lambda>(q, e). q \<noteq> p) (g_devs s1)\<rparr>
          in Inr (emit [Free p dev] s2))"

subsection \<open>Submitting and completing I/O\<close>

text \<open>
  \<open>submit_single_io\<close>. \<open>rc\<close> is what \<open>spdk_nvme_ns_cmd_read\<close> returns. A read the
  driver accepts (\<open>rc = 0\<close>) is in flight on the device's queue pair until the driver
  completes it. \<open>rte_mempool_get\<close> fails when the pool has no free task.
\<close>

definition submit_single_io :: "nat \<Rightarrow> int \<Rightarrow> world \<Rightarrow> world result" where
  "submit_single_io p rc s =
     (case task_pool s of
        [] \<Rightarrow> Inl (Exit 1, emit [Print Task_pool_get_failed] s)
      | t # free \<Rightarrow>
          (case deref s p of
             None \<Rightarrow> Inl (Bad_pointer, s\<lparr>task_pool := free\<rparr>)
           | Some dev \<Rightarrow>
               let task = t\<lparr>task_dev := p\<rparr>;
                   offset = offset_in_ios dev;
                   dev1 = dev\<lparr>offset_in_ios := offset_in_ios dev + 1\<rparr>;
                   dev2 = (if offset_in_ios dev1 = size_in_ios dev1
                           then dev1\<lparr>offset_in_ios := 0\<rparr> else dev1);
                   s1 = emit [Ns_cmd_read (qpair dev2) (task_buf task)
                                (offset * ucast (io_size_blocks dev2)) (io_size_blocks dev2)]
                          (store p dev2 (s\<lparr>task_pool := free\<rparr>))
               in if rc \<noteq> 0
                  then Inr (emit [Print Starting_io_failed]
                              (s1\<lparr>task_pool := task # task_pool s1\<rparr>))
                  else Inr (store p
                              (dev2\<lparr>current_queue_depth := current_queue_depth dev2 + 1\<rparr>)
                              (s1\<lparr>inflight := inflight s1 @ [(qpair dev2, task)]\<rparr>))))"

text \<open>
  \<open>task_complete\<close>. \<open>rc\<close> is the result of the read that the resubmission issues, when
  there is one.
\<close>

definition task_complete :: "perf_task \<Rightarrow> int \<Rightarrow> world \<Rightarrow> world result" where
  "task_complete task rc s =
     (case deref s (task_dev task) of
        None \<Rightarrow> Inl (Bad_pointer, s)
      | Some dev \<Rightarrow>
          let dev1 = dev\<lparr>current_queue_depth := current_queue_depth dev - 1\<rparr>;
              dev2 = dev1\<lparr>io_completed := io_completed dev1 + 1\<rparr>;
              s1 = store (task_dev task) dev2 s;
              s2 = s1\<lparr>task_pool := task # task_pool s1\<rparr>
          in if \<not> is_draining dev2 \<and> \<not> is_removed dev2
             then submit_single_io (task_dev task) rc s2
             else Inr s2)"

definition io_complete :: "perf_task \<Rightarrow> int \<Rightarrow> world \<Rightarrow> world result" where
  "io_complete ctx rc s = task_complete ctx rc s"

text \<open>
  The driver's \<open>spdk_nvme_qpair_process_completions(qpair, 0)\<close>. The list says how many
  reads the device has finished since the last poll, one element for each; the element
  is the \<open>rc\<close> of the read that the completion callback may issue. The driver completes
  only reads that are in flight on this queue pair, oldest first, and forgets a read
  before it calls the callback.
\<close>

fun qpair_process_completions :: "nat \<Rightarrow> int list \<Rightarrow> world \<Rightarrow> world result" where
  "qpair_process_completions q [] s = Inr s"
| "qpair_process_completions q (rc # rcs) s =
     (case find (\<lambda>(q', t). q' = q) (inflight s) of
        None \<Rightarrow> Inr s
      | Some (q', t) \<Rightarrow>
          (case io_complete t rc (s\<lparr>inflight := remove1 (q', t) (inflight s)\<rparr>) of
             Inl e \<Rightarrow> Inl e
           | Inr s' \<Rightarrow> qpair_process_completions q rcs s'))"

definition check_io :: "nat \<Rightarrow> int list \<Rightarrow> world \<Rightarrow> world result" where
  "check_io p batch s =
     (case deref s p of
        None \<Rightarrow> Inl (Bad_pointer, s)
      | Some dev \<Rightarrow> qpair_process_completions (qpair dev) batch s)"

text \<open>
  \<open>submit_io\<close>: \<open>while (queue_depth-- > 0) submit_single_io(dev)\<close>. The k-th read gets
  the k-th element of \<open>rcs\<close> as its result, and 0 (accepted) once the list is used up.
\<close>

function submit_io :: "nat \<Rightarrow> int \<Rightarrow> int list \<Rightarrow> world \<Rightarrow> world result" where
  "submit_io p queue_depth rcs s =
     (if queue_depth > 0
      then (case submit_single_io p (case rcs of [] \<Rightarrow> 0 | rc # _ \<Rightarrow> rc) s of
              Inl e \<Rightarrow> Inl e
            | Inr s' \<Rightarrow> submit_io p (queue_depth - 1) (tl rcs) s')
      else Inr s)"
  by pat_completeness auto
termination
  by (relation "measure (\<lambda>(p, queue_depth, rcs, s). nat queue_depth)") auto

text \<open>
  \<open>drain_io\<close>: set \<open>is_draining\<close>, then poll while \<open>current_queue_depth > 0\<close>. Each poll
  takes the next batch of completions; when the batches are used up and reads are still
  outstanding, the loop has not ended and the result is \<open>None\<close>.
\<close>

fun drain_io_while :: "nat \<Rightarrow> int list list \<Rightarrow> world \<Rightarrow> world result option" where
  "drain_io_while p batches s =
     (case deref s p of
        None \<Rightarrow> Some (Inl (Bad_pointer, s))
      | Some dev \<Rightarrow>
          if current_queue_depth dev > 0
          then (case batches of
                  [] \<Rightarrow> None
                | b # bs \<Rightarrow>
                    (case check_io p b s of
                       Inl e \<Rightarrow> Some (Inl e)
                     | Inr s' \<Rightarrow> drain_io_while p bs s'))
          else Some (Inr s))"

definition drain_io :: "nat \<Rightarrow> int list list \<Rightarrow> world \<Rightarrow> world result option" where
  "drain_io p batches s =
     (case deref s p of
        None \<Rightarrow> Some (Inl (Bad_pointer, s))
      | Some dev \<Rightarrow> drain_io_while p batches (store p (dev\<lparr>is_draining := True\<rparr>) s))"

definition print_stats :: "world \<Rightarrow> world" where
  "print_stats s =
     emit (map (\<lambda>(p, dev). Print (Stats_line (name dev) (io_completed dev)
                                     (io_completed dev - prev_io_completed dev)))
             (g_devs s) @ [Print Stats_end])
       (s\<lparr>g_devs := map (\<lambda>(p, dev). (p, dev\<lparr>prev_io_completed := io_completed dev\<rparr>))
                      (g_devs s)\<rparr>)"

subsection \<open>Hotplug callbacks\<close>

definition probe_cb :: "world \<Rightarrow> bool \<times> world" where
  "probe_cb s = (True, emit [Print Attaching_to] s)"

definition attach_cb :: "spdk_nvme_ctrlr \<Rightarrow> bool \<Rightarrow> world \<Rightarrow> world result" where
  "attach_cb c calloc_ok s = register_dev c calloc_ok (emit [Print Attached_to] s)"

text \<open>
  \<open>remove_cb\<close>: the first descriptor of the list with this controller is marked; when
  there is none the controller is detached.
\<close>

definition remove_cb :: "nat \<Rightarrow> world \<Rightarrow> world" where
  "remove_cb c s =
     (case find (\<lambda>(p, dev). ctrlr dev = c) (g_devs s) of
        Some (p, dev) \<Rightarrow>
          emit [Print (Controller_removed (name dev))] (store p (dev\<lparr>is_removed := True\<rparr>) s)
      | None \<Rightarrow> emit [Nvme_detach c] s)"

text \<open>
  The driver's \<open>spdk_nvme_probe\<close>: it reports the hotplug events it has found, in order,
  through the callbacks, and returns \<open>rc\<close>. A controller that \<open>probe_cb\<close> refuses is not
  attached.
\<close>

datatype hotplug = Attach spdk_nvme_ctrlr bool | Remove nat

fun deliver :: "hotplug \<Rightarrow> world \<Rightarrow> world result" where
  "deliver (Attach c calloc_ok) s =
     (case probe_cb s of (accept, s') \<Rightarrow> if accept then attach_cb c calloc_ok s' else Inr s')"
| "deliver (Remove c) s = Inr (remove_cb c s)"

fun spdk_nvme_probe :: "hotplug list \<Rightarrow> int \<Rightarrow> world \<Rightarrow> (int \<times> world) result" where
  "spdk_nvme_probe [] rc s = Inr (rc, s)"
| "spdk_nvme_probe (e # es) rc s =
     (case deliver e s of
        Inl x \<Rightarrow> Inl x
      | Inr s' \<Rightarrow> spdk_nvme_probe es rc s')"

subsection \<open>The main loop\<close>

text \<open>
  What the outside world does during one pass of the loop: for the k-th device of the
  list, the results of the reads of its initial burst and the completions its poll
  delivers (nothing, once the list is used up); the hotplug events of the probe and its
  result; the tick count read at the end of the pass.
\<close>

record pass_env =
  pe_io :: "(int list \<times> int list) list"
  pe_events :: "hotplug list"
  pe_probe_rc :: int
  pe_now :: u64

text \<open>The body of the first \<open>TAILQ_FOREACH\<close> of \<open>io_loop\<close>, for the device at \<open>p\<close>.\<close>

definition poll_dev :: "nat \<Rightarrow> int list \<times> int list \<Rightarrow> world \<Rightarrow> world result" where
  "poll_dev p io s =
     (case deref s p of
        None \<Rightarrow> Inl (Bad_pointer, s)
      | Some dev \<Rightarrow>
          if is_new dev
          then (case submit_io p g_queue_depth (fst io) s of
                  Inl e \<Rightarrow> Inl e
                | Inr s1 \<Rightarrow>
                    (case deref s1 p of
                       None \<Rightarrow> Inl (Bad_pointer, s1)
                     | Some dev1 \<Rightarrow> check_io p (snd io) (store p (dev1\<lparr>is_new := False\<rparr>) s1)))
          else check_io p (snd io) s)"

fun poll_devs :: "nat list \<Rightarrow> (int list \<times> int list) list \<Rightarrow> world \<Rightarrow> world result" where
  "poll_devs [] ios s = Inr s"
| "poll_devs (p # ps) ios s =
     (case poll_dev p (case ios of [] \<Rightarrow> ([], []) | io # _ \<Rightarrow> io) s of
        Inl e \<Rightarrow> Inl e
      | Inr s' \<Rightarrow> poll_devs ps (tl ios) s')"

text \<open>
  The body of the \<open>TAILQ_FOREACH_SAFE\<close> that looks for removed devices, and the loop. The
  loop saves the next element before it runs the body, and the body unlinks only the
  current element, so the loop visits the elements the list had when it started.
\<close>

definition sweep_dev :: "nat \<Rightarrow> world \<Rightarrow> world result" where
  "sweep_dev p s =
     (case deref s p of
        None \<Rightarrow> Inl (Bad_pointer, s)
      | Some dev \<Rightarrow>
          if is_removed dev \<and> current_queue_depth dev = 0 then unregister_dev p s else Inr s)"

fun sweep :: "nat list \<Rightarrow> world \<Rightarrow> world result" where
  "sweep [] s = Inr s"
| "sweep (p # ps) s =
     (case sweep_dev p s of
        Inl e \<Rightarrow> Inl e
      | Inr s' \<Rightarrow> sweep ps s')"

text \<open>
  \<open>while (1)\<close> of \<open>io_loop\<close>, one element of the list for each pass. The loop ends at a
  \<open>break\<close>; when the passes are used up before that, it has not ended (\<open>None\<close>).
\<close>

fun io_loop_while :: "u64 \<Rightarrow> u64 \<Rightarrow> pass_env list \<Rightarrow> world \<Rightarrow> world result option" where
  "io_loop_while tsc_end next_stats_tsc [] s = None"
| "io_loop_while tsc_end next_stats_tsc (e # es) s =
     (case poll_devs (map fst (g_devs s)) (pe_io e) s of
        Inl x \<Rightarrow> Some (Inl x)
      | Inr s1 \<Rightarrow>
          (case spdk_nvme_probe (pe_events e) (pe_probe_rc e) s1 of
             Inl x \<Rightarrow> Some (Inl x)
           | Inr (rc, s2) \<Rightarrow>
               if rc \<noteq> 0 then Some (Inr (emit [Print Probe_failed] s2))
               else
                 (case sweep (map fst (g_devs s2)) s2 of
                    Inl x \<Rightarrow> Some (Inl x)
                  | Inr s3 \<Rightarrow>
                      if pe_now e > tsc_end then Some (Inr s3)
                      else if pe_now e > next_stats_tsc
                      then io_loop_while tsc_end (next_stats_tsc + g_tsc_rate s3) es
                             (print_stats s3)
                      else io_loop_while tsc_end next_stats_tsc es s3)))"

text \<open>
  The last \<open>TAILQ_FOREACH_SAFE\<close> of \<open>io_loop\<close>: drain and unregister every device. The
  k-th device gets the k-th list of completion batches.
\<close>

fun drain_all :: "nat list \<Rightarrow> int list list list \<Rightarrow> world \<Rightarrow> world result option" where
  "drain_all [] bss s = Some (Inr s)"
| "drain_all (p # ps) bss s =
     (case drain_io p (case bss of [] \<Rightarrow> [] | bs # _ \<Rightarrow> bs) s of
        None \<Rightarrow> None
      | Some (Inl x) \<Rightarrow> Some (Inl x)
      | Some (Inr s1) \<Rightarrow>
          (case unregister_dev p s1 of
             Inl x \<Rightarrow> Some (Inl x)
           | Inr s2 \<Rightarrow> drain_all ps (tl bss) s2))"

text \<open>
  \<open>io_loop\<close>. \<open>le_ticks0\<close> and \<open>le_ticks1\<close> are the two tick counts read before the loop.
  \<open>g_time_in_sec * g_tsc_rate\<close> is computed in uint64_t.
\<close>

record loop_env =
  le_ticks0 :: u64
  le_ticks1 :: u64
  le_passes :: "pass_env list"
  le_drain :: "int list list list"

definition io_loop :: "loop_env \<Rightarrow> world \<Rightarrow> (int \<times> world) result option" where
  "io_loop env s =
     (let tsc_end = le_ticks0 env + word_of_int (g_time_in_sec s) * g_tsc_rate s;
          next_stats_tsc = le_ticks1 env
      in case io_loop_while tsc_end next_stats_tsc (le_passes env) s of
           None \<Rightarrow> None
         | Some (Inl x) \<Rightarrow> Some (Inl x)
         | Some (Inr s1) \<Rightarrow>
             (case drain_all (map fst (g_devs s1)) (le_drain env) s1 of
                None \<Rightarrow> None
              | Some (Inl x) \<Rightarrow> Some (Inl x)
              | Some (Inr s2) \<Rightarrow> Some (Inr (0, s2))))"

subsection \<open>Arguments and main\<close>

text \<open>
  \<open>atoi\<close> is \<open>(int) strtol(s, NULL, 10)\<close>: white space, an optional sign, then decimal
  digits up to the first character that is none; the value is held to the range of long
  and then cut to 32 bits.
\<close>

definition isspace :: "char \<Rightarrow> bool" where
  "isspace c = (of_char c \<in> {32, 9, 10, 11, 12, 13 :: nat})"

definition isdigit :: "char \<Rightarrow> bool" where
  "isdigit c = (48 \<le> (of_char c :: nat) \<and> (of_char c :: nat) \<le> 57)"

fun digits_val :: "int \<Rightarrow> string \<Rightarrow> int" where
  "digits_val acc [] = acc"
| "digits_val acc (c # cs) =
     (if isdigit c then digits_val (10 * acc + (of_char c - 48)) cs else acc)"

definition strtol :: "string \<Rightarrow> int" where
  "strtol str =
     (let r = dropWhile isspace str;
          v = (case r of
                 [] \<Rightarrow> 0
               | c # cs \<Rightarrow>
                   if c = CHR ''-'' then - digits_val 0 cs
                   else if c = CHR ''+'' then digits_val 0 cs
                   else digits_val 0 r)
      in max (- (2 ^ 63)) (min (2 ^ 63 - 1) v))"

definition atoi :: "string \<Rightarrow> int" where
  "atoi str = sint (word_of_int (strtol str) :: 32 word)"

text \<open>
  \<open>getopt\<close> of the GNU C library, for an option string that starts with a letter and
  with \<open>POSIXLY_CORRECT\<close> not set: the values that successive calls return before \<open>-1\<close>,
  each with \<open>optarg\<close>. \<open>cluster\<close> is what is left of the word being read, \<open>args\<close> the
  words after it. A word that is no option (empty, not starting with \<open>-\<close>, or \<open>-\<close> alone) is
  passed over and the scan goes on with the word after it; the word \<open>--\<close> ends the scan.
  The argument of an option is the rest of its word or, when that is empty, the next
  word whatever it is. An unknown option character and a missing argument give \<open>?\<close>.
\<close>

fun takes_arg :: "string \<Rightarrow> char \<Rightarrow> bool option" where
  "takes_arg [] c = None"
| "takes_arg (x # xs) c =
     (if x = c \<and> c \<noteq> CHR '':''
      then Some (case xs of [] \<Rightarrow> False | y # _ \<Rightarrow> y = CHR '':'')
      else takes_arg xs c)"

fun getopt :: "string \<Rightarrow> string \<Rightarrow> string list \<Rightarrow> (char \<times> string) list" where
  "getopt optstring [] [] = []"
| "getopt optstring [] (a # args) =
     (case a of
        [] \<Rightarrow> getopt optstring [] args
      | c # cs \<Rightarrow>
          if c \<noteq> CHR ''-'' \<or> cs = [] then getopt optstring [] args
          else if cs = ''-'' then []
          else getopt optstring cs args)"
| "getopt optstring (c # cluster) args =
     (case takes_arg optstring c of
        None \<Rightarrow> (CHR ''?'', []) # getopt optstring cluster args
      | Some False \<Rightarrow> (c, []) # getopt optstring cluster args
      | Some True \<Rightarrow>
          if cluster \<noteq> [] then (c, cluster) # getopt optstring [] args
          else (case args of
                  [] \<Rightarrow> [(CHR ''?'', [])]
                | a # rest \<Rightarrow> (c, a) # getopt optstring [] rest))"

definition usage :: "string \<Rightarrow> world \<Rightarrow> world" where
  "usage program_name s = emit [Print (Usage program_name)] s"

text \<open>
  \<open>parse_args\<close>. \<open>opts\<close> are the values \<open>getopt(argc, argv, "t:")\<close> returns before
  \<open>-1\<close>. The loop gives \<open>Inl\<close> when it returns from the function. \<open>optind\<close>, which
  \<open>parse_args\<close> resets at its end, is a variable of \<open>getopt\<close> and is not part of the
  state.
\<close>

fun parse_args_while :: "string \<Rightarrow> (char \<times> string) list \<Rightarrow> world \<Rightarrow> (int \<times> world) + world" where
  "parse_args_while argv0 [] s = Inr s"
| "parse_args_while argv0 ((op, optarg) # opts) s =
     (if op = CHR ''t''
      then parse_args_while argv0 opts (s\<lparr>g_time_in_sec := atoi optarg\<rparr>)
      else Inl (1, usage argv0 s))"

definition parse_args :: "string \<Rightarrow> (char \<times> string) list \<Rightarrow> world \<Rightarrow> int \<times> world" where
  "parse_args argv0 opts s =
     (case parse_args_while argv0 opts (s\<lparr>g_time_in_sec := 0\<rparr>) of
        Inl r \<Rightarrow> r
      | Inr s1 \<Rightarrow> if g_time_in_sec s1 = 0 then (1, usage argv0 s1) else (0, s1))"

definition register_controllers :: "hotplug list \<Rightarrow> int \<Rightarrow> world \<Rightarrow> (int \<times> world) result" where
  "register_controllers events rc s =
     (case spdk_nvme_probe events rc (emit [Print Initializing_controllers] s) of
        Inl x \<Rightarrow> Inl x
      | Inr (rc', s1) \<Rightarrow>
          if rc' \<noteq> 0 then Inr (1, emit [Print Probe_failed] s1) else Inr (0, s1))"

text \<open>
  \<open>task_ctor\<close>, the constructor of one task of the pool. \<open>buf\<close> is what \<open>spdk_zmalloc\<close>
  returns (0 is NULL); the bytes that \<open>memset\<close> writes into the buffer are not part of
  the state.
\<close>

definition task_ctor :: "nat \<Rightarrow> nat \<Rightarrow> world \<Rightarrow> perf_task result" where
  "task_ctor buf id_arg s =
     (if buf = 0 then Inl (Exit 1, emit [Print Task_buf_malloc_failed] s)
      else Inr \<lparr>task_dev = 0, task_buf = buf\<rparr>)"

text \<open>
  \<open>rte_mempool_create\<close> with \<open>task_ctor\<close> as the object constructor: the library calls
  the constructor once for each of the \<open>n\<close> elements, with the indices \<open>id_arg\<close>, \<open>id_arg + 1\<close>, ...
  in turn, and returns the pool of the elements constructed. \<open>zmalloc i\<close> is what
  \<open>spdk_zmalloc\<close> returns to the constructor of element \<open>i\<close>. \<open>main\<close> does not test what
  \<open>rte_mempool_create\<close> returns; the library is taken to have the memory of the pool
  itself.
\<close>

fun rte_mempool_create ::
  "nat \<Rightarrow> nat \<Rightarrow> (nat \<Rightarrow> nat) \<Rightarrow> world \<Rightarrow> perf_task list result" where
  "rte_mempool_create 0 id_arg zmalloc s = Inr []"
| "rte_mempool_create (Suc n) id_arg zmalloc s =
     (case task_ctor (zmalloc id_arg) id_arg s of
        Inl x \<Rightarrow> Inl x
      | Inr task \<Rightarrow>
          (case rte_mempool_create n (Suc id_arg) zmalloc s of
             Inl x \<Rightarrow> Inl x
           | Inr pool \<Rightarrow> Inr (task # pool)))"

text \<open>
  \<open>main\<close>. The environment gives the program name \<open>argv[0]\<close> and the arguments
  after it, the result of \<open>rte_eal_init\<close>, the buffers that \<open>spdk_zmalloc\<close> returns while
  \<open>rte_mempool_create\<close> builds the pool of 8192 tasks, the tick rate, what the first
  probe reports and what happens during \<open>io_loop\<close>. The program starts with no device,
  an empty pool and nothing in flight.
\<close>

record main_env =
  me_argv0 :: string
  me_args :: "string list"
  me_eal_init :: int
  me_zmalloc :: "nat \<Rightarrow> nat"
  me_ticks_hz :: u64
  me_events :: "hotplug list"
  me_probe_rc :: int
  me_loop :: loop_env

definition start :: world where
  "start = \<lparr>g_devs = [], task_pool = [], inflight = [], calls = [],
            g_tsc_rate = 0, g_time_in_sec = 0\<rparr>"

definition main :: "main_env \<Rightarrow> (int \<times> world) result option" where
  "main env =
     (case parse_args (me_argv0 env) (getopt ''t:'' [] (me_args env)) start of
        (rc, s1) \<Rightarrow>
          if rc \<noteq> 0 then Some (Inr (rc, s1))
          else if me_eal_init env < 0 then Some (Inr (1, emit [Print Dpdk_init_failed] s1))
          else
            (case rte_mempool_create 8192 0 (me_zmalloc env) s1 of
               Inl x \<Rightarrow> Some (Inl x)
             | Inr pool \<Rightarrow>
                 (case register_controllers (me_events env) (me_probe_rc env)
                         (s1\<lparr>task_pool := pool, g_tsc_rate := me_ticks_hz env\<rparr>) of
                    Inl x \<Rightarrow> Some (Inl x)
                  | Inr (rc', s3) \<Rightarrow>
                      if rc' \<noteq> 0 then Some (Inr (1, s3))
                      else io_loop (me_loop env) (emit [Print Initialization_complete] s3))))"

text \<open>The exit status of the process, when it ends.\<close>

fun exit_code :: "(int \<times> world) result \<Rightarrow> int option" where
  "exit_code (Inr (rc, s)) = Some rc"
| "exit_code (Inl (Exit n, s)) = Some n"
| "exit_code (Inl (e, s)) = None"

section \<open>Vocabulary of the properties\<close>

subsection \<open>Results and logs\<close>

text \<open>
  The state a result carries, whether the program went on or stopped.
\<close>

definition world_of :: "world result \<Rightarrow> world" where
  "world_of r = (case r of Inl (e, s) \<Rightarrow> s | Inr s \<Rightarrow> s)"

definition probed :: "(int \<times> world) result \<Rightarrow> world" where
  "probed r = (case r of Inl (e, s) \<Rightarrow> s | Inr (rc, s) \<Rightarrow> s)"

subsection \<open>Attach and removal\<close>

text \<open>
  The attach-time validation in the words of the specification: namespace 1 exists and is
  active, its capacity in bytes is at least the I/O size, and its sector size is at most
  the I/O size.
\<close>

definition ns_valid :: "spdk_nvme_ctrlr \<Rightarrow> bool" where
  "ns_valid c =
     (case ctrlr_get_ns c of
        None \<Rightarrow> False
      | Some n \<Rightarrow> ns_is_active n \<and> ucast g_io_size_bytes \<le> ns_get_size n \<and>
                  ns_get_sector_size n \<le> g_io_size_bytes)"

text \<open>
  The descriptor that \<open>register_dev\<close> inserts for a controller whose namespace 1 is \<open>n\<close>.
\<close>

definition registered :: "spdk_nvme_ctrlr \<Rightarrow> spdk_nvme_ns \<Rightarrow> dev_ctx" where
  "registered c n = (new_dev c)
      \<lparr>size_in_ios := ns_get_size n div ucast g_io_size_bytes,
       io_size_blocks := g_io_size_bytes div ns_get_sector_size n,
       qpair := ctrlr_alloc_io_qpair c\<rparr>"

text \<open>
  The controller handles of the attach events of a probe, in order, and the controller
  handles of the descriptors of the registry.
\<close>

fun attached :: "hotplug list \<Rightarrow> nat list" where
  "attached [] = []"
| "attached (Attach c ok # es) = ctrlr_ptr c # attached es"
| "attached (Remove c # es) = attached es"

definition ctrlrs :: "world \<Rightarrow> nat list" where
  "ctrlrs s = map (\<lambda>(p, dev). ctrlr dev) (g_devs s)"

subsection \<open>Submission and completion\<close>

text \<open>
  The cursor after a submission, the read that a submission issues, and the descriptor
  after a submission whose read returned \<open>rc\<close>.
\<close>

definition next_offset :: "dev_ctx \<Rightarrow> u64" where
  "next_offset dev = (if offset_in_ios dev + 1 = size_in_ios dev then 0 else offset_in_ios dev + 1)"

definition read_call :: "dev_ctx \<Rightarrow> perf_task \<Rightarrow> call" where
  "read_call dev t = Ns_cmd_read (qpair dev) (task_buf t)
      (offset_in_ios dev * ucast (io_size_blocks dev)) (io_size_blocks dev)"

definition submitted :: "dev_ctx \<Rightarrow> int \<Rightarrow> dev_ctx" where
  "submitted dev rc = dev\<lparr>offset_in_ios := next_offset dev,
      current_queue_depth := (if rc = 0 then current_queue_depth dev + 1 else current_queue_depth dev)\<rparr>"

text \<open>
  What every completion does to the descriptor and to the state before it decides on a
  resubmission: one request less outstanding, one more completed, the task back in the
  pool. \<open>resubmits\<close> is the test that decides.
\<close>

definition completed :: "dev_ctx \<Rightarrow> dev_ctx" where
  "completed dev = dev\<lparr>current_queue_depth := current_queue_depth dev - 1,
                        io_completed := io_completed dev + 1\<rparr>"

definition after_completion :: "perf_task \<Rightarrow> dev_ctx \<Rightarrow> world \<Rightarrow> world" where
  "after_completion t dev s = (store (task_dev t) (completed dev) s)\<lparr>task_pool := t # task_pool s\<rparr>"

definition resubmits :: "dev_ctx \<Rightarrow> bool" where
  "resubmits dev = (\<not> is_removed dev \<and> \<not> is_draining dev)"

subsection \<open>Arguments\<close>

text \<open>
  Every value that \<open>getopt\<close> returned is the option \<open>t\<close>.
\<close>

definition all_t :: "(char \<times> string) list \<Rightarrow> bool" where
  "all_t opts = list_all (\<lambda>(op, optarg). op = CHR ''t'') opts"

subsection \<open>The queue depth invariant and the observation points\<close>

text \<open>
  The invariant that ties the counter of a device to the driver. \<open>outstanding fl p\<close> is
  the number of reads in flight whose task belongs to the device at \<open>p\<close>. \<open>synced\<close>: the
  descriptors have different addresses, the counter of every device is the number of its
  reads in flight and that number is at most \<open>g_queue_depth\<close>, and every task in flight
  belongs to a registered device. \<open>depth_inv\<close> adds that a device that has not had its
  initial burst has nothing outstanding.
\<close>

definition outstanding :: "(nat \<times> perf_task) list \<Rightarrow> nat \<Rightarrow> nat" where
  "outstanding fl p = length (filter (\<lambda>(q, t). task_dev t = p) fl)"

definition synced :: "(nat \<times> dev_ctx) list \<Rightarrow> (nat \<times> perf_task) list \<Rightarrow> bool" where
  "synced devs fl =
     (distinct (map fst devs) \<and>
      list_all (\<lambda>(p, dev). unat (current_queue_depth dev) = outstanding fl p \<and>
                           outstanding fl p \<le> nat g_queue_depth) devs \<and>
      list_all (\<lambda>(q, t). task_dev t \<in> set (map fst devs)) fl)"

definition sync_inv :: "world \<Rightarrow> bool" where
  "sync_inv s = synced (g_devs s) (inflight s)"

definition depth_inv :: "world \<Rightarrow> bool" where
  "depth_inv s =
     (sync_inv s \<and> list_all (\<lambda>(p, dev). is_new dev \<longrightarrow> current_queue_depth dev = 0) (g_devs s))"

text \<open>The number of reads the program has issued so far.\<close>

fun is_read :: "call \<Rightarrow> bool" where
  "is_read (Ns_cmd_read q b lba n) = True"
| "is_read c = False"

definition reads :: "world \<Rightarrow> nat" where
  "reads s = length (filter is_read (calls s))"

text \<open>
  The bound of the specification, for every device of the registry.
\<close>

definition depth_bounded :: "world \<Rightarrow> bool" where
  "depth_bounded s =
     list_all (\<lambda>(p, dev). 0 \<le> current_queue_depth dev \<and>
                          current_queue_depth dev \<le> word_of_int g_queue_depth) (g_devs s)"

text \<open>
  The observation points of \<open>io_loop\<close>: the states a run goes through, in order. For each
  pass of the \<open>while\<close> loop these are the state at the head of the loop, after the
  devices have been polled, after the probe, and after the sweep; for the last loop, the
  state before each device, after its \<open>drain_io\<close> and after its \<open>unregister_dev\<close>. The
  functions follow \<open>io_loop_while\<close>, \<open>drain_all\<close> and \<open>io_loop\<close> step by step and stop
  where they stop.
\<close>

fun io_loop_observed :: "u64 \<Rightarrow> u64 \<Rightarrow> pass_env list \<Rightarrow> world \<Rightarrow> world list" where
  "io_loop_observed tsc_end next_stats_tsc [] s = [s]"
| "io_loop_observed tsc_end next_stats_tsc (e # es) s =
     s # (case poll_devs (map fst (g_devs s)) (pe_io e) s of
            Inl x \<Rightarrow> []
          | Inr s1 \<Rightarrow> s1 #
              (case spdk_nvme_probe (pe_events e) (pe_probe_rc e) s1 of
                 Inl x \<Rightarrow> []
               | Inr (rc, s2) \<Rightarrow> s2 #
                   (if rc \<noteq> 0 then []
                    else (case sweep (map fst (g_devs s2)) s2 of
                            Inl x \<Rightarrow> []
                          | Inr s3 \<Rightarrow> s3 #
                              (if pe_now e > tsc_end then []
                               else if pe_now e > next_stats_tsc
                               then io_loop_observed tsc_end (next_stats_tsc + g_tsc_rate s3) es
                                      (print_stats s3)
                               else io_loop_observed tsc_end next_stats_tsc es s3)))))"

fun drain_all_observed :: "nat list \<Rightarrow> int list list list \<Rightarrow> world \<Rightarrow> world list" where
  "drain_all_observed [] bss s = [s]"
| "drain_all_observed (p # ps) bss s =
     s # (case drain_io p (case bss of [] \<Rightarrow> [] | bs # _ \<Rightarrow> bs) s of
            None \<Rightarrow> []
          | Some (Inl x) \<Rightarrow> []
          | Some (Inr s1) \<Rightarrow> s1 #
              (case unregister_dev p s1 of
                 Inl x \<Rightarrow> []
               | Inr s2 \<Rightarrow> drain_all_observed ps (tl bss) s2))"

definition io_loop_states :: "loop_env \<Rightarrow> world \<Rightarrow> world list" where
  "io_loop_states env s =
     (let tsc_end = le_ticks0 env + word_of_int (g_time_in_sec s) * g_tsc_rate s;
          next_stats_tsc = le_ticks1 env
      in io_loop_observed tsc_end next_stats_tsc (le_passes env) s @
         (case io_loop_while tsc_end next_stats_tsc (le_passes env) s of
            None \<Rightarrow> []
          | Some (Inl x) \<Rightarrow> []
          | Some (Inr s1) \<Rightarrow> drain_all_observed (map fst (g_devs s1)) (le_drain env) s1))"

subsection \<open>Freed descriptors\<close>

text \<open>
  Every \<open>free\<close> of a descriptor in the log of calls was made when the descriptor had
  nothing outstanding.
\<close>

fun idle_free :: "call \<Rightarrow> bool" where
  "idle_free (Free p dev) = (current_queue_depth dev = 0)"
| "idle_free c = True"

definition idle_frees :: "world \<Rightarrow> bool" where
  "idle_frees s = list_all idle_free (calls s)"

subsection \<open>The last loop of io_loop\<close>

text \<open>
  The descriptors that the calls of a log free, in order, each with the fields it held
  when it was freed.
\<close>

fun freed :: "call list \<Rightarrow> (nat \<times> dev_ctx) list" where
  "freed [] = []"
| "freed (Free p dev # cs) = (p, dev) # freed cs"
| "freed (c # cs) = freed cs"

text \<open>
  Between the state \<open>s1\<close> in which the \<open>while\<close> loop of \<open>io_loop\<close> ended and the state
  \<open>s'\<close> in which \<open>io_loop\<close> returns, the log has only grown, and what it has gained
  frees exactly the devices that \<open>s1\<close> had, in list order, each with \<open>is_draining\<close> set
  and nothing outstanding.
\<close>

definition drained_and_unregistered :: "world \<Rightarrow> world \<Rightarrow> bool" where
  "drained_and_unregistered s1 s' =
     (let fs = freed (drop (length (calls s1)) (calls s'))
      in take (length (calls s1)) (calls s') = calls s1 \<and>
         map fst fs = map fst (g_devs s1) \<and>
         list_all (\<lambda>(p, dev). is_draining dev \<and> current_queue_depth dev = 0) fs)"

text \<open>
  What the last loop needs from the driver in order to end. \<open>own_qpairs\<close>: a read is in
  flight on the queue pair of a registered device exactly when its task belongs to that
  device. \<open>enough s ps bss\<close>: the k-th device of \<open>ps\<close> is registered and the batches that
  the driver delivers to it hold at least as many completions as the device has reads
  outstanding in \<open>s\<close>.
\<close>

definition own_qpairs :: "world \<Rightarrow> bool" where
  "own_qpairs s =
     list_all (\<lambda>(q, t). list_all (\<lambda>(p, dev). (q = qpair dev) = (task_dev t = p)) (g_devs s))
       (inflight s)"

fun enough :: "world \<Rightarrow> nat list \<Rightarrow> int list list list \<Rightarrow> bool" where
  "enough s [] bss = True"
| "enough s (p # ps) bss =
     ((case deref s p of
         None \<Rightarrow> False
       | Some dev \<Rightarrow>
           unat (current_queue_depth dev) \<le> length (concat (case bss of [] \<Rightarrow> [] | bs # _ \<Rightarrow> bs))) \<and>
      enough s ps (tl bss))"

subsection \<open>Concrete inputs\<close>

text \<open>
  A controller with a namespace of three I/O units, one whose namespace is smaller than
  one I/O, a second good controller, a pool of six tasks, and the state after the first
  controller has been registered with that pool.
\<close>

definition example_ns :: spdk_nvme_ns where
  "example_ns = \<lparr>ns_is_active = True, ns_get_size = 12288, ns_get_sector_size = 512\<rparr>"

definition example_ctrlr :: spdk_nvme_ctrlr where
  "example_ctrlr = \<lparr>ctrlr_ptr = 7, cdata_mn = ''disk'', cdata_sn = ''001'',
     ctrlr_get_ns = Some example_ns, ctrlr_alloc_io_qpair = 3\<rparr>"

definition small_ctrlr :: spdk_nvme_ctrlr where
  "small_ctrlr = \<lparr>ctrlr_ptr = 8, cdata_mn = ''tiny'', cdata_sn = ''002'',
     ctrlr_get_ns = Some \<lparr>ns_is_active = True, ns_get_size = 1024, ns_get_sector_size = 512\<rparr>,
     ctrlr_alloc_io_qpair = 5\<rparr>"

definition other_ctrlr :: spdk_nvme_ctrlr where
  "other_ctrlr = \<lparr>ctrlr_ptr = 9, cdata_mn = ''disk'', cdata_sn = ''003'',
     ctrlr_get_ns = Some example_ns, ctrlr_alloc_io_qpair = 4\<rparr>"

definition example_pool :: "perf_task list" where
  "example_pool = map (\<lambda>b. \<lparr>task_dev = 0, task_buf = b\<rparr>) [1, 2, 3, 4, 5, 6]"

definition example_world :: world where
  "example_world = world_of (register_dev example_ctrlr True (start\<lparr>task_pool := example_pool\<rparr>))"

text \<open>
  The task of the first read, the state with that read in flight, the same state after
  a removal notification for the controller, and the state with the device registered,
  marked removed and nothing outstanding.
\<close>

definition example_task :: perf_task where
  "example_task = \<lparr>task_dev = 1, task_buf = 1\<rparr>"

definition busy_world :: world where
  "busy_world = world_of (submit_single_io 1 0 example_world)"

definition removed_world :: world where
  "removed_world = remove_cb 7 busy_world"

definition removed_idle_world :: world where
  "removed_idle_world = remove_cb 7 example_world"

text \<open>
  A run of the program: a pool of ten tasks, a first probe that attaches a good
  controller and one that is too small, then four passes (a refused read in the first
  burst, a hot attach, a hot remove, a probe that fails in the fourth pass) and the
  completions that arrive while the last device is drained. \<open>entry_world\<close> is the state
  in which \<open>io_loop\<close> is entered after the first probe.
\<close>

definition pool_world :: world where
  "pool_world = start\<lparr>task_pool := map (\<lambda>b. \<lparr>task_dev = 0, task_buf = b\<rparr>) [1, 2, 3, 4, 5, 6, 7, 8, 9, 10],
                       g_tsc_rate := 1000, g_time_in_sec := 1\<rparr>"

definition probed_world :: world where
  "probed_world =
     probed (register_controllers [Attach example_ctrlr True, Attach small_ctrlr True] 0 pool_world)"

definition entry_world :: world where
  "entry_world = emit [Print Initialization_complete] probed_world"

definition example_loop :: loop_env where
  "example_loop =
     \<lparr>le_ticks0 = 0, le_ticks1 = 0,
      le_passes =
        [\<lparr>pe_io = [([0, 0, - 5, 0], [0, 0])], pe_events = [Attach other_ctrlr True], pe_probe_rc = 0, pe_now = 10\<rparr>,
         \<lparr>pe_io = [([], [0]), ([], [0, 0, 0, 0, 0])], pe_events = [Remove 7], pe_probe_rc = 0, pe_now = 20\<rparr>,
         \<lparr>pe_io = [([], [0, 0, 0]), ([], [])], pe_events = [], pe_probe_rc = 0, pe_now = 30\<rparr>,
         \<lparr>pe_io = [([], [0])], pe_events = [], pe_probe_rc = - 1, pe_now = 40\<rparr>],
      le_drain = [[[], [0, 0], [0, 0, 0]]]\<rparr>"

text \<open>
  A pass whose probe fails, and environments of \<open>main\<close>, in which \<open>spdk_zmalloc\<close>
  gives element \<open>i\<close> of the pool the buffer \<open>i + 1\<close>: one with the given arguments, one
  with the events of the run above.
\<close>

definition failing_pass :: pass_env where
  "failing_pass = \<lparr>pe_io = [([0, 0, 0, 0], [0])], pe_events = [], pe_probe_rc = - 1, pe_now = 5\<rparr>"

definition example_main :: "string list \<Rightarrow> main_env" where
  "example_main args =
     \<lparr>me_argv0 = ''hotplug'', me_args = args, me_eal_init = 0, me_zmalloc = Suc,
      me_ticks_hz = 1000, me_events = [Attach example_ctrlr True], me_probe_rc = 0,
      me_loop = \<lparr>le_ticks0 = 0, le_ticks1 = 0, le_passes = [], le_drain = []\<rparr>\<rparr>"

definition example_env :: main_env where
  "example_env =
     \<lparr>me_argv0 = ''hotplug'', me_args = [''-t'', ''1''], me_eal_init = 0,
      me_zmalloc = Suc, me_ticks_hz = 1000,
      me_events = [Attach example_ctrlr True, Attach small_ctrlr True], me_probe_rc = 0,
      me_loop = example_loop\<rparr>"

text \<open>
  Two runs of \<open>main\<close> that enter \<open>io_loop\<close>. In the first, a controller is attached
  during the first pass and \<open>calloc\<close> fails in \<open>register_dev\<close>. In the second, the probe
  of the first pass fails while the device has reads outstanding, and the driver
  delivers no completion after that.
\<close>

definition calloc_failure_env :: main_env where
  "calloc_failure_env =
     (example_main [''-t'', ''1''])
       \<lparr>me_loop := \<lparr>le_ticks0 = 0, le_ticks1 = 0,
                    le_passes = [\<lparr>pe_io = [([0, 0, 0, 0], [0])], pe_events = [Attach other_ctrlr False],
                                  pe_probe_rc = 0, pe_now = 5\<rparr>],
                    le_drain = []\<rparr>\<rparr>"

definition no_completions_env :: main_env where
  "no_completions_env =
     (example_main [''-t'', ''1''])
       \<lparr>me_loop := \<lparr>le_ticks0 = 0, le_ticks1 = 0, le_passes = [failing_pass], le_drain = []\<rparr>\<rparr>"

text \<open>
  What the witnesses read off a state: the address and the counter of every device of
  the registry, and of every descriptor freed, in order.
\<close>

definition depths :: "world \<Rightarrow> (nat \<times> nat) list" where
  "depths s = map (\<lambda>(p, dev). (p, unat (current_queue_depth dev))) (g_devs s)"

fun frees :: "call list \<Rightarrow> (nat \<times> nat) list" where
  "frees [] = []"
| "frees (Free p dev # cs) = (p, unat (current_queue_depth dev)) # frees cs"
| "frees (c # cs) = frees cs"

section \<open>Properties\<close>

subsection \<open>Reading and writing the state\<close>

lemma emit_fields [simp]:
  "g_devs (emit cs s) = g_devs s" "task_pool (emit cs s) = task_pool s"
  "inflight (emit cs s) = inflight s" "calls (emit cs s) = calls s @ cs"
  "g_tsc_rate (emit cs s) = g_tsc_rate s" "g_time_in_sec (emit cs s) = g_time_in_sec s"
  by (simp_all add: emit_def)

lemma store_fields [simp]:
  "task_pool (store p d s) = task_pool s" "inflight (store p d s) = inflight s"
  "calls (store p d s) = calls s" "g_tsc_rate (store p d s) = g_tsc_rate s"
  "g_time_in_sec (store p d s) = g_time_in_sec s"
  "map fst (g_devs (store p d s)) = map fst (g_devs s)"
  by (simp_all add: store_def case_prod_unfold comp_def)

lemma deref_emit [simp]: "deref (emit cs s) p = deref s p"
  by (simp add: deref_def)

lemma deref_upd [simp]:
  "deref (s\<lparr>task_pool := x\<rparr>) p = deref s p"
  "deref (s\<lparr>inflight := y\<rparr>) p = deref s p"
  "deref (s\<lparr>calls := z\<rparr>) p = deref s p"
  "deref (s\<lparr>g_time_in_sec := i\<rparr>) p = deref s p"
  "deref (s\<lparr>g_tsc_rate := r\<rparr>) p = deref s p"
  by (simp_all add: deref_def)

lemma map_of_store:
  "map_of (map (\<lambda>(q, e). if q = p then (q, d) else (q, e)) xs) q =
     (if q = p then (if p \<in> fst ` set xs then Some d else None) else map_of xs q)"
  by (induction xs) (force split: if_splits)+

lemma deref_store:
  "deref (store p d s) q = (if q = p then (if deref s p = None then None else Some d) else deref s q)"
  by (auto simp: deref_def store_def map_of_store map_of_eq_None_iff)

lemma deref_store_same [simp]: "deref s p = Some d0 \<Longrightarrow> deref (store p d s) p = Some d"
  by (simp add: deref_store)

lemma deref_store_other [simp]: "q \<noteq> p \<Longrightarrow> deref (store p d s) q = deref s q"
  by (simp add: deref_store)

subsection \<open>Attach: the validation of register_dev\<close>

lemma new_dev_ns [simp]: "ns (new_dev c) = ctrlr_get_ns c" by (simp add: new_dev_def)

lemma register_dev_invalid:
  "\<not> ns_valid c \<Longrightarrow> \<exists>m. register_dev c True s = Inr (emit [Print m, Free (calloc_dev s) (new_dev c)] s)"
  by (auto simp: register_dev_def ns_valid_def Let_def not_le split: option.splits)

lemma register_dev_valid:
  "ns_valid c \<Longrightarrow> ctrlr_get_ns c = Some n \<Longrightarrow> ns_get_sector_size n \<noteq> 0 \<Longrightarrow> ctrlr_alloc_io_qpair c \<noteq> 0 \<Longrightarrow>
   register_dev c True s = Inr ((emit [Ctrlr_alloc_io_qpair (ctrlr_ptr c)] s)\<lparr>g_devs := g_devs s @ [(calloc_dev s, registered c n)]\<rparr>)"
  by (auto simp: register_dev_def ns_valid_def Let_def not_le registered_def)

lemma register_dev_inserted:
  "register_dev c ok s = Inr s' \<Longrightarrow> g_devs s' \<noteq> g_devs s \<Longrightarrow>
     ns_valid c \<and> (\<exists>n. ctrlr_get_ns c = Some n \<and> g_devs s' = g_devs s @ [(calloc_dev s, registered c n)]
        \<and> calls s' = calls s @ [Ctrlr_alloc_io_qpair (ctrlr_ptr c)])"
  by (auto simp: register_dev_def ns_valid_def Let_def not_le registered_def split: option.splits if_splits)

text \<open>
  Claim C3. A controller that fails the validation is not inserted: \<open>register_dev\<close>
  returns with the registry unchanged, and the only calls it makes are the message and
  the \<open>free\<close> of the fresh descriptor, so no queue pair is allocated. Whenever
  \<open>register_dev\<close> changes the registry, the controller passed the validation, and the
  registry has grown at its tail by one descriptor whose \<open>size_in_ios\<close> is the capacity
  divided by the I/O size and whose \<open>io_size_blocks\<close> is the I/O size divided by the sector
  size. And a controller that passes the validation, with a sector size other than 0 and
  a queue pair allocated, is inserted.
\<close>

theorem register_dev_validates:
  "(\<not> ns_valid c \<longrightarrow>
      (\<exists>s' m. register_dev c True s = Inr s' \<and> g_devs s' = g_devs s \<and>
          calls s' = calls s @ [Print m, Free (calloc_dev s) (new_dev c)])) \<and>
   (\<forall>s'. register_dev c calloc_ok s = Inr s' \<and> g_devs s' \<noteq> g_devs s \<longrightarrow>
      ns_valid c \<and>
      (\<exists>n. ctrlr_get_ns c = Some n \<and>
           g_devs s' = g_devs s @ [(calloc_dev s, registered c n)] \<and>
           calls s' = calls s @ [Ctrlr_alloc_io_qpair (ctrlr_ptr c)])) \<and>
   (\<forall>n. ns_valid c \<and> ctrlr_get_ns c = Some n \<and> ns_get_sector_size n \<noteq> 0 \<and>
        ctrlr_alloc_io_qpair c \<noteq> 0 \<longrightarrow>
      (\<exists>s'. register_dev c True s = Inr s' \<and>
          g_devs s' = g_devs s @ [(calloc_dev s, registered c n)]))"
proof (intro conjI allI impI)
  assume "\<not> ns_valid c"
  from register_dev_invalid[OF this, of s] show
    "\<exists>s' m. register_dev c True s = Inr s' \<and> g_devs s' = g_devs s \<and>
          calls s' = calls s @ [Print m, Free (calloc_dev s) (new_dev c)]"
    by auto
next
  fix s' assume "register_dev c calloc_ok s = Inr s' \<and> g_devs s' \<noteq> g_devs s"
  then show "\<exists>n. ctrlr_get_ns c = Some n \<and>
           g_devs s' = g_devs s @ [(calloc_dev s, registered c n)] \<and>
           calls s' = calls s @ [Ctrlr_alloc_io_qpair (ctrlr_ptr c)]"
    using register_dev_inserted by blast
next
  fix s' assume "register_dev c calloc_ok s = Inr s' \<and> g_devs s' \<noteq> g_devs s"
  then show "ns_valid c" using register_dev_inserted by blast
next
  fix n assume "ns_valid c \<and> ctrlr_get_ns c = Some n \<and> ns_get_sector_size n \<noteq> 0 \<and>
        ctrlr_alloc_io_qpair c \<noteq> 0"
  then show "\<exists>s'. register_dev c True s = Inr s' \<and>
          g_devs s' = g_devs s @ [(calloc_dev s, registered c n)]"
    by (simp add: register_dev_valid)
qed

theorem register_dev_validates_witness:
  "\<not> ns_valid small_ctrlr \<and> ns_valid example_ctrlr \<and>
   (\<exists>s' m. register_dev small_ctrlr True start = Inr s' \<and> g_devs s' = [] \<and>
       calls s' = [Print m, Free 1 (new_dev small_ctrlr)]) \<and>
   (\<exists>s'. register_dev example_ctrlr True start = Inr s' \<and>
       map fst (g_devs s') = [1] \<and> map (size_in_ios \<circ> snd) (g_devs s') = [3] \<and>
       map (io_size_blocks \<circ> snd) (g_devs s') = [8])"
proof -
  have a: "\<not> ns_valid small_ctrlr" by code_simp
  have b: "ns_valid example_ctrlr \<and> ctrlr_get_ns example_ctrlr = Some example_ns \<and>
           ns_get_sector_size example_ns \<noteq> 0 \<and> ctrlr_alloc_io_qpair example_ctrlr \<noteq> 0"
    by code_simp
  have c: "g_devs start = []" "calls start = []" "calloc_dev start = 1"
    by (simp_all add: start_def calloc_dev_def)
  have d: "size_in_ios (registered example_ctrlr example_ns) = 3"
          "io_size_blocks (registered example_ctrlr example_ns) = 8"
    by code_simp+
  from register_dev_validates[of small_ctrlr start True] a b c d
       register_dev_validates[of example_ctrlr start True]
  show ?thesis by (auto simp: )
qed

subsection \<open>Controller handles in the registry\<close>

lemma ctrlrs_emit [simp]: "ctrlrs (emit cs s) = ctrlrs s" by (simp add: ctrlrs_def)

lemma registered_ctrlr [simp]: "ctrlr (registered c n) = ctrlr_ptr c"
  by (simp add: registered_def new_dev_def)

lemma register_dev_ctrlrs:
  "register_dev c ok s = Inr s' \<Longrightarrow> ctrlrs s' = ctrlrs s \<or> ctrlrs s' = ctrlrs s @ [ctrlr_ptr c]"
  by (cases "g_devs s' = g_devs s") (auto simp: ctrlrs_def dest!: register_dev_inserted)

lemma fold_max_ge: "x \<in> set xs \<Longrightarrow> x \<le> fold max xs (a::nat)"
proof (induction xs arbitrary: a)
  case Nil then show ?case by simp
next
  case (Cons y ys)
  have mono: "\<And>b. b \<le> fold max ys b"
  proof -
    fix b :: nat show "b \<le> fold max ys b"
      by (induction ys arbitrary: b) (auto intro: order_trans[OF max.cobounded2])
  qed
  show ?case
  proof (cases "x = y")
    case True
    have "y \<le> max y a" by simp
    also have "\<dots> \<le> fold max ys (max y a)" by (rule mono)
    finally show ?thesis using True by simp
  next
    case False
    with Cons.prems have "x \<in> set ys" by simp
    then show ?thesis using Cons.IH by simp
  qed
qed

lemma calloc_dev_fresh: "calloc_dev s \<notin> fst ` set (g_devs s)"
proof
  assume "calloc_dev s \<in> fst ` set (g_devs s)"
  then have "calloc_dev s \<in> set (map fst (g_devs s))" by simp
  then have "calloc_dev s \<le> fold max (map fst (g_devs s)) 0" by (rule fold_max_ge)
  then show False by (simp add: calloc_dev_def)
qed

lemma register_dev_addrs:
  "register_dev c ok s = Inr s' \<Longrightarrow>
     map fst (g_devs s') = map fst (g_devs s) \<or> map fst (g_devs s') = map fst (g_devs s) @ [calloc_dev s]"
  by (cases "g_devs s' = g_devs s") (auto dest!: register_dev_inserted)

lemma register_dev_distinct:
  "register_dev c ok s = Inr s' \<Longrightarrow> distinct (map fst (g_devs s)) \<Longrightarrow> distinct (map fst (g_devs s'))"
  using calloc_dev_fresh[of s] by (auto dest!: register_dev_addrs)

lemma map_field_store:
  "distinct (map fst xs) \<Longrightarrow> (p, d0) \<in> set xs \<Longrightarrow> g d = g d0 \<Longrightarrow>
   map (\<lambda>(q, e). g e) (map (\<lambda>(q, e). if q = p then (q, d) else (q, e)) xs) = map (\<lambda>(q, e). g e) xs"
proof -
  assume dist: "distinct (map fst xs)" and mem: "(p, d0) \<in> set xs" and g: "g d = g d0"
  have "\<And>q e. (q, e) \<in> set xs \<Longrightarrow> q = p \<Longrightarrow> e = d0"
    using dist mem by (auto dest: eq_key_imp_eq_value)
  then show ?thesis using g by (auto simp: case_prod_unfold)
qed

lemma find_Some_mem: "find P xs = Some x \<Longrightarrow> x \<in> set xs \<and> P x"
  by (induction xs) (auto split: if_splits)

lemma remove_cb_addrs [simp]: "map fst (g_devs (remove_cb c s)) = map fst (g_devs s)"
  by (simp add: remove_cb_def split: option.splits)

lemma remove_cb_ctrlrs:
  "distinct (map fst (g_devs s)) \<Longrightarrow> ctrlrs (remove_cb c s) = ctrlrs s"
proof (cases "find (\<lambda>(p, dev). ctrlr dev = c) (g_devs s)")
  case None
  then show ?thesis by (simp add: remove_cb_def)
next
  case (Some x)
  obtain p d where x: "x = (p, d)" by (cases x)
  from Some x have mem: "(p, d) \<in> set (g_devs s)" by (auto dest: find_Some_mem)
  assume "distinct (map fst (g_devs s))"
  from map_field_store[OF this mem, of ctrlr "d\<lparr>is_removed := True\<rparr>"] Some x
  show ?thesis by (simp add: remove_cb_def ctrlrs_def store_def)
qed

lemma calloc_dev_emit [simp]: "calloc_dev (emit cs s) = calloc_dev s" by (simp add: calloc_dev_def)

lemma probe_distinct_ctrlrs:
  "spdk_nvme_probe events rc s = Inr (rc', s') \<Longrightarrow> distinct (map fst (g_devs s)) \<Longrightarrow>
   distinct (ctrlrs s @ attached events) \<Longrightarrow> distinct (map fst (g_devs s')) \<and> distinct (ctrlrs s')"
proof (induction events arbitrary: s)
  case Nil
  then show ?case by simp
next
  case (Cons e es)
  from Cons.prems(1) obtain s1 where d: "deliver e s = Inr s1" and r: "spdk_nvme_probe es rc s1 = Inr (rc', s')"
    by (auto split: sum.splits)
  have "distinct (map fst (g_devs s1)) \<and> distinct (ctrlrs s1 @ attached es)"
  proof (cases e)
    case (Attach c ok)
    with d have reg: "register_dev c ok (emit [Print Attached_to] (emit [Print Attaching_to] s)) = Inr s1"
      by (simp add: probe_cb_def attach_cb_def)
    from register_dev_distinct[OF reg] Cons.prems(2) have "distinct (map fst (g_devs s1))" by simp
    moreover from register_dev_ctrlrs[OF reg] Cons.prems(3) Attach
    have "distinct (ctrlrs s1 @ attached es)" by auto
    ultimately show ?thesis ..
  next
    case (Remove c)
    with d have "s1 = remove_cb c s" by simp
    with Cons.prems(2,3) Remove show ?thesis by (simp add: remove_cb_ctrlrs)
  qed
  with Cons.IH[OF r] show ?case by simp
qed

text \<open>
  Claim C9 as stated does not hold: \<open>register_dev\<close> never looks a controller up before it
  inserts. Two attach events with the same controller handle leave two descriptors with
  that handle in the registry.
\<close>

theorem register_dev_same_ctrlr_twice:
  "ctrlrs (probed (spdk_nvme_probe [Attach example_ctrlr True, Attach example_ctrlr True] 0 start))
     = [7, 7]"
  by code_simp

text \<open>
  Claim C9, amended. When the controller handles of the attach events of a probe are
  pairwise distinct and none of them is in the registry, whose handles are pairwise
  distinct, then after the probe the handles of the registry are pairwise distinct.
\<close>

theorem probe_keeps_ctrlrs_distinct:
  "spdk_nvme_probe events rc s = Inr (rc', s') \<Longrightarrow> distinct (map fst (g_devs s)) \<Longrightarrow>
   distinct (ctrlrs s @ attached events) \<Longrightarrow> distinct (ctrlrs s')"
  using probe_distinct_ctrlrs by blast

theorem probe_keeps_ctrlrs_distinct_witness:
  "distinct (map fst (g_devs start)) \<and>
   distinct (ctrlrs start @ attached [Attach example_ctrlr True, Remove 7, Attach other_ctrlr True]) \<and>
   (\<exists>s'. spdk_nvme_probe [Attach example_ctrlr True, Remove 7, Attach other_ctrlr True] 0 start = Inr (0, s') \<and>
      ctrlrs s' = [7, 9] \<and> distinct (ctrlrs s'))"
proof -
  let ?ev = "[Attach example_ctrlr True, Remove 7, Attach other_ctrlr True]"
  have a: "distinct (map fst (g_devs start))" by code_simp
  have b: "distinct (ctrlrs start @ attached ?ev)" by code_simp
  have "case spdk_nvme_probe ?ev 0 start of Inr (rc, s') \<Rightarrow> rc = 0 \<and> ctrlrs s' = [7, 9] | Inl x \<Rightarrow> False"
    by code_simp
  then obtain s' where c: "spdk_nvme_probe ?ev 0 start = Inr (0, s')" "ctrlrs s' = [7, 9]"
    by (auto split: sum.splits)
  from probe_keeps_ctrlrs_distinct[OF c(1) a b] a b c show ?thesis by blast
qed

subsection \<open>submit_single_io: the result of a submission and the cursor\<close>

lemma store_store [simp]: "store p d (store p e s) = store p d s"
  by (simp add: store_def comp_def case_prod_unfold if_distrib cong: if_cong)

lemma store_task_pool_comm: "store p d (s\<lparr>task_pool := x\<rparr>) = (store p d s)\<lparr>task_pool := x\<rparr>"
  by (simp add: store_def)

lemma store_inflight_comm: "store p d (s\<lparr>inflight := x\<rparr>) = (store p d s)\<lparr>inflight := x\<rparr>"
  by (simp add: store_def)

lemma store_calls_comm: "store p d (s\<lparr>calls := x\<rparr>) = (store p d s)\<lparr>calls := x\<rparr>"
  by (simp add: store_def)

lemma store_emit_comm: "store p d (emit cs s) = emit cs (store p d s)"
  by (simp add: store_def emit_def)

lemma submit_single_io_eq:
  assumes "deref s p = Some dev" and "task_pool s = t # free"
  shows "submit_single_io p rc s =
    Inr ((store p (submitted dev rc) s)
          \<lparr>task_pool := (if rc = 0 then free else t\<lparr>task_dev := p\<rparr> # free),
           inflight := (if rc = 0 then inflight s @ [(qpair dev, t\<lparr>task_dev := p\<rparr>)] else inflight s),
           calls := calls s @ read_call dev t # (if rc = 0 then [] else [Print Starting_io_failed])\<rparr>)"
  using assms
  by (simp add: submit_single_io_def Let_def submitted_def next_offset_def read_call_def
      store_task_pool_comm store_inflight_comm store_calls_comm emit_def)

lemma next_offset_bound:
  "offset_in_ios dev < size_in_ios dev \<Longrightarrow>
     next_offset dev < size_in_ios dev \<and>
     unat (next_offset dev) = (unat (offset_in_ios dev) + 1) mod unat (size_in_ios dev)"
proof -
  assume lt: "offset_in_ios dev < size_in_ios dev"
  then have nomax: "offset_in_ios dev \<noteq> - 1"
    by (metis word_order.extremum_strict)
  then have "1 + offset_in_ios dev \<noteq> 0"
    by (metis add.commute add_eq_0_iff)
  then have suc: "unat (offset_in_ios dev + 1) = unat (offset_in_ios dev) + 1"
    by (simp add: unatSuc add.commute)
  show ?thesis
  proof (cases "offset_in_ios dev + 1 = size_in_ios dev")
    case True
    then show ?thesis using lt suc by (simp add: next_offset_def word_less_nat_alt)
  next
    case False
    from lt have "offset_in_ios dev + 1 \<le> size_in_ios dev"
      by (simp add: inc_le)
    with False have "offset_in_ios dev + 1 < size_in_ios dev" by simp
    then show ?thesis using suc False by (simp add: next_offset_def word_less_nat_alt)
  qed
qed

lemma deref_world_upd [simp]:
  "deref (s\<lparr>task_pool := x, inflight := y, calls := z\<rparr>) p = deref s p"
  by (simp add: deref_def)

lemma submitted_fields [simp]:
  "size_in_ios (submitted dev rc) = size_in_ios dev"
  "offset_in_ios (submitted dev rc) = next_offset dev"
  "current_queue_depth (submitted dev rc) = (if rc = 0 then current_queue_depth dev + 1 else current_queue_depth dev)"
  "is_new (submitted dev rc) = is_new dev" "is_removed (submitted dev rc) = is_removed dev"
  "is_draining (submitted dev rc) = is_draining dev" "ctrlr (submitted dev rc) = ctrlr dev"
  "qpair (submitted dev rc) = qpair dev" "io_completed (submitted dev rc) = io_completed dev"
  "name (submitted dev rc) = name dev"
  by (simp_all add: submitted_def)

lemma submit_single_io_cases:
  assumes "submit_single_io p rc s = Inr s'"
  obtains dev t free where "deref s p = Some dev" "task_pool s = t # free"
  using assms by (auto simp: submit_single_io_def split: list.splits option.splits)

text \<open>
  Claim C6. With a free task in the pool, \<open>submit_single_io\<close> on a registered device
  returns. When the read returns a nonzero code, \<open>current_queue_depth\<close> is unchanged, the
  task is back in the pool, nothing is added to the reads in flight and no further read
  is issued. When the read returns zero, \<open>current_queue_depth\<close> is one more.
\<close>

theorem submit_single_io_result:
  assumes "deref s p = Some dev" and "task_pool s = t # free"
  shows "\<exists>s' dev'. submit_single_io p rc s = Inr s' \<and> deref s' p = Some dev' \<and>
     (if rc \<noteq> 0
      then current_queue_depth dev' = current_queue_depth dev \<and>
           task_pool s' = t\<lparr>task_dev := p\<rparr> # free \<and> inflight s' = inflight s \<and>
           calls s' = calls s @ [read_call dev t, Print Starting_io_failed]
      else current_queue_depth dev' = current_queue_depth dev + 1 \<and>
           task_pool s' = free \<and> inflight s' = inflight s @ [(qpair dev, t\<lparr>task_dev := p\<rparr>)] \<and>
           calls s' = calls s @ [read_call dev t])"
  using assms by (simp add: submit_single_io_eq)

theorem submit_single_io_result_witness:
  "(\<exists>s' dev'. submit_single_io 1 (- 12) example_world = Inr s' \<and> deref s' 1 = Some dev' \<and>
       current_queue_depth dev' = 0 \<and> map task_buf (task_pool s') = [1, 2, 3, 4, 5, 6] \<and> inflight s' = []) \<and>
   (\<exists>s' dev'. submit_single_io 1 0 example_world = Inr s' \<and> deref s' 1 = Some dev' \<and>
       current_queue_depth dev' = 1 \<and> map task_buf (task_pool s') = [2, 3, 4, 5, 6] \<and>
       inflight s' = [(3, \<lparr>task_dev = 1, task_buf = 1\<rparr>)])"
proof -
  have "case deref example_world 1 of Some dev \<Rightarrow> current_queue_depth dev = 0 \<and> qpair dev = 3 | None \<Rightarrow> False"
    by code_simp
  then obtain dev where a: "deref example_world 1 = Some dev" "current_queue_depth dev = 0" "qpair dev = 3"
    by (auto split: option.splits)
  have b: "task_pool example_world = \<lparr>task_dev = 0, task_buf = 1\<rparr> # map (\<lambda>b. \<lparr>task_dev = 0, task_buf = b\<rparr>) [2, 3, 4, 5, 6]"
    by code_simp
  have c: "inflight example_world = []" by code_simp
  from submit_single_io_result[OF a(1) b, of "- 12"] submit_single_io_result[OF a(1) b, of 0] a b c
  show ?thesis by auto
qed

declare submit_io.simps [simp del]

declare drain_io_while.simps [simp del]

lemma submit_io_cursor_gen:
  "deref s p = Some dev \<Longrightarrow> offset_in_ios dev < size_in_ios dev \<Longrightarrow>
   submit_io p n rcs s = Inr s' \<Longrightarrow>
   \<exists>dev'. deref s' p = Some dev' \<and> size_in_ios dev' = size_in_ios dev \<and>
          offset_in_ios dev' < size_in_ios dev' \<and>
          unat (offset_in_ios dev') = (unat (offset_in_ios dev) + nat n) mod unat (size_in_ios dev)"
proof (induction p n rcs s arbitrary: dev rule: submit_io.induct)
  case (1 p n rcs s)
  show ?case
  proof (cases "n > 0")
    case False
    with "1.prems" show ?thesis
      by (simp add: word_less_nat_alt submit_io.simps[of p n])
  next
    case True
    let ?rc = "case rcs of [] \<Rightarrow> 0 | rc # _ \<Rightarrow> rc"
    from True "1.prems"(3) obtain s1 where
      one: "submit_single_io p ?rc s = Inr s1" and rest: "submit_io p (n - 1) (tl rcs) s1 = Inr s'"
      by (subst (asm) submit_io.simps) (auto split: sum.splits)
    from one obtain t free where pool: "task_pool s = t # free"
      by (rule submit_single_io_cases)
    from one submit_single_io_eq[OF "1.prems"(1) pool, of ?rc]
    have d1: "deref s1 p = Some (submitted dev ?rc)"
      using "1.prems"(1) by auto
    from next_offset_bound[OF "1.prems"(2)]
    have b: "offset_in_ios (submitted dev ?rc) < size_in_ios (submitted dev ?rc)"
      and u: "unat (offset_in_ios (submitted dev ?rc)) = (unat (offset_in_ios dev) + 1) mod unat (size_in_ios dev)"
      by simp_all
    from "1.IH"[OF True one d1 b rest] obtain dev' where
      r: "deref s' p = Some dev'" "size_in_ios dev' = size_in_ios dev" "offset_in_ios dev' < size_in_ios dev'"
      "unat (offset_in_ios dev') = (unat (offset_in_ios (submitted dev ?rc)) + nat (n - 1)) mod unat (size_in_ios dev)"
      by auto
    from True have n: "nat n = Suc (nat (n - 1))" by simp
    have "unat (offset_in_ios dev') = (unat (offset_in_ios dev) + nat n) mod unat (size_in_ios dev)"
      unfolding r(4) u n by (simp add: mod_add_left_eq)
    with r show ?thesis by blast
  qed
qed

text \<open>
  A descriptor that \<open>register_dev\<close> inserts has \<open>size_in_ios\<close> at least 1 and its cursor
  at 0.
\<close>

lemma registered_cursor:
  assumes "ns_valid c" and "ctrlr_get_ns c = Some n"
  shows "1 \<le> size_in_ios (registered c n) \<and> offset_in_ios (registered c n) = 0"
proof -
  from assms have le: "(ucast g_io_size_bytes :: u64) \<le> ns_get_size n"
    by (simp add: ns_valid_def)
  have u: "unat (ucast g_io_size_bytes :: u64) = 4096"
    by (simp add: g_io_size_bytes_def)
  from le have "4096 \<le> unat (ns_get_size n)"
    by (simp add: word_le_nat_alt u)
  then have "1 \<le> unat (ns_get_size n) div 4096" by simp
  then have "1 \<le> unat (ns_get_size n div ucast g_io_size_bytes)"
    by (simp add: unat_div u)
  then have "1 \<le> size_in_ios (registered c n)"
    by (simp add: registered_def word_le_nat_alt)
  then show ?thesis by (simp add: registered_def new_dev_def)
qed

text \<open>
  Claim C5. For a registered device with \<open>size_in_ios\<close> at least 1 and the cursor at 0,
  after any number \<open>n\<close> of calls of \<open>submit_single_io\<close> in a row (the loop of
  \<open>submit_io\<close>), whatever the reads return, the cursor is within \<open>[0, size_in_ios)\<close>; it is
  \<open>n mod size_in_ios\<close>, one step for each call and back to zero at \<open>size_in_ios\<close>.
\<close>

theorem submit_io_cursor:
  "deref s p = Some dev \<Longrightarrow> 1 \<le> size_in_ios dev \<Longrightarrow> offset_in_ios dev = 0 \<Longrightarrow>
   submit_io p n rcs s = Inr s' \<Longrightarrow>
   \<exists>dev'. deref s' p = Some dev' \<and> size_in_ios dev' = size_in_ios dev \<and>
          0 \<le> offset_in_ios dev' \<and> offset_in_ios dev' < size_in_ios dev' \<and>
          unat (offset_in_ios dev') = nat n mod unat (size_in_ios dev)"
proof -
  assume a: "deref s p = Some dev" "1 \<le> size_in_ios dev" "offset_in_ios dev = 0"
    "submit_io p n rcs s = Inr s'"
  from a(2,3) have "offset_in_ios dev < size_in_ios dev"
    by (simp add: word_less_nat_alt word_le_nat_alt)
  from submit_io_cursor_gen[OF a(1) this a(4)] a(3) show ?thesis by simp
qed

theorem submit_io_cursor_witness:
  "(\<exists>dev. deref example_world 1 = Some dev \<and> 1 \<le> size_in_ios dev \<and> offset_in_ios dev = 0 \<and> size_in_ios dev = 3) \<and>
   (\<exists>s' dev'. submit_io 1 4 [] example_world = Inr s' \<and> deref s' 1 = Some dev' \<and>
       offset_in_ios dev' < size_in_ios dev' \<and> offset_in_ios dev' = 1)"
proof -
  have "case deref example_world 1 of Some dev \<Rightarrow> 1 \<le> size_in_ios dev \<and> offset_in_ios dev = 0 \<and> size_in_ios dev = 3 | None \<Rightarrow> False"
    by code_simp
  then obtain dev where a: "deref example_world 1 = Some dev" "1 \<le> size_in_ios dev" "offset_in_ios dev = 0" "size_in_ios dev = 3"
    by (auto split: option.splits)
  have "case submit_io 1 4 [] example_world of Inr s' \<Rightarrow> True | Inl x \<Rightarrow> False"
    by code_simp
  then obtain s' where b: "submit_io 1 4 [] example_world = Inr s'"
    by (auto split: sum.splits)
  from submit_io_cursor[OF a(1,2,3) b] obtain dev' where
    c: "deref s' 1 = Some dev'" "offset_in_ios dev' < size_in_ios dev'" "unat (offset_in_ios dev') = nat 4 mod unat (size_in_ios dev)"
    by auto
  from c(3) a(4) have "unat (offset_in_ios dev') = 1" by simp
  then have "unat (offset_in_ios dev') = unat (1 :: u64)" by simp
  then have "offset_in_ios dev' = 1" by (simp only: word_unat_eq_iff)
  with a b c show ?thesis by blast
qed

subsection \<open>task_complete\<close>

lemma completed_fields [simp]:
  "current_queue_depth (completed dev) = current_queue_depth dev - 1"
  "io_completed (completed dev) = io_completed dev + 1"
  "is_removed (completed dev) = is_removed dev" "is_draining (completed dev) = is_draining dev"
  "is_new (completed dev) = is_new dev" "size_in_ios (completed dev) = size_in_ios dev"
  "offset_in_ios (completed dev) = offset_in_ios dev" "qpair (completed dev) = qpair dev"
  "ctrlr (completed dev) = ctrlr dev" "name (completed dev) = name dev"
  by (simp_all add: completed_def)

lemma after_completion_fields [simp]:
  "task_pool (after_completion t dev s) = t # task_pool s"
  "inflight (after_completion t dev s) = inflight s"
  "calls (after_completion t dev s) = calls s"
  "map fst (g_devs (after_completion t dev s)) = map fst (g_devs s)"
  by (simp_all add: after_completion_def)

lemma deref_after_completion:
  "deref (after_completion t dev s) q =
     (if q = task_dev t then (if deref s q = None then None else Some (completed dev)) else deref s q)"
  by (simp add: after_completion_def deref_store)

lemma task_complete_eq:
  assumes "deref s (task_dev t) = Some dev"
  shows "task_complete t rc s =
     (if resubmits dev
      then submit_single_io (task_dev t) rc (after_completion t dev s)
      else Inr (after_completion t dev s))"
  using assms by (auto simp add: task_complete_def Let_def completed_def after_completion_def resubmits_def)

text \<open>
  Claim C2. On a completion for a task whose device is registered, \<open>task_complete\<close>
  takes one off \<open>current_queue_depth\<close>, adds one to \<open>io_completed\<close> and puts the task
  back in the pool; then, if the device is neither removed nor draining, it calls
  \<open>submit_single_io\<close> for the same device, and otherwise it returns. It always returns,
  and the calls it has made are exactly one read when the device is neither removed nor
  draining (with the message of a failed start when the read is refused) and none
  otherwise.
\<close>

theorem task_complete_result:
  assumes "deref s (task_dev t) = Some dev"
  shows "deref (after_completion t dev s) (task_dev t) =
           Some (dev\<lparr>current_queue_depth := current_queue_depth dev - 1,
                      io_completed := io_completed dev + 1\<rparr>) \<and>
         task_pool (after_completion t dev s) = t # task_pool s \<and>
         task_complete t rc s =
           (if \<not> is_removed dev \<and> \<not> is_draining dev
            then submit_single_io (task_dev t) rc (after_completion t dev s)
            else Inr (after_completion t dev s)) \<and>
         (\<exists>s'. task_complete t rc s = Inr s' \<and>
            calls s' = calls s @
              (if \<not> is_removed dev \<and> \<not> is_draining dev
               then read_call (completed dev) t # (if rc = 0 then [] else [Print Starting_io_failed])
               else []) \<and>
            deref s' (task_dev t) =
              Some (if \<not> is_removed dev \<and> \<not> is_draining dev
                    then submitted (completed dev) rc else completed dev))"
proof -
  let ?s1 = "after_completion t dev s"
  have d: "deref ?s1 (task_dev t) = Some (completed dev)"
    using assms by (simp add: deref_after_completion)
  have p: "task_pool ?s1 = t # task_pool s" by simp
  from d have d': "deref ?s1 (task_dev t) =
           Some (dev\<lparr>current_queue_depth := current_queue_depth dev - 1,
                      io_completed := io_completed dev + 1\<rparr>)"
    by (simp add: completed_def)
  have eq: "task_complete t rc s =
           (if \<not> is_removed dev \<and> \<not> is_draining dev
            then submit_single_io (task_dev t) rc ?s1 else Inr ?s1)"
    using task_complete_eq[OF assms, of rc] by (simp add: resubmits_def conj_commute)
  have "\<exists>s'. task_complete t rc s = Inr s' \<and>
            calls s' = calls s @
              (if \<not> is_removed dev \<and> \<not> is_draining dev
               then read_call (completed dev) t # (if rc = 0 then [] else [Print Starting_io_failed])
               else []) \<and>
            deref s' (task_dev t) =
              Some (if \<not> is_removed dev \<and> \<not> is_draining dev
                    then submitted (completed dev) rc else completed dev)"
    using d submit_single_io_eq[OF d p, of rc] by (simp add: eq)
  with d' p eq show ?thesis by blast
qed

theorem task_complete_result_witness:
  "(\<exists>dev. deref busy_world 1 = Some dev \<and> \<not> is_removed dev \<and> \<not> is_draining dev \<and>
       current_queue_depth dev = 1 \<and> io_completed dev = 0) \<and>
   (\<exists>s' dev'. task_complete example_task 0 busy_world = Inr s' \<and> deref s' 1 = Some dev' \<and>
       current_queue_depth dev' = 1 \<and> io_completed dev' = 1 \<and>
       calls s' = calls busy_world @ [Ns_cmd_read 3 1 8 8]) \<and>
   (\<exists>dev. deref removed_world 1 = Some dev \<and> is_removed dev \<and> current_queue_depth dev = 1) \<and>
   (\<exists>s' dev'. task_complete example_task 0 removed_world = Inr s' \<and> deref s' 1 = Some dev' \<and>
       current_queue_depth dev' = 0 \<and> io_completed dev' = 1 \<and> calls s' = calls removed_world)"
proof -
  have "case deref busy_world 1 of None \<Rightarrow> False | Some dev \<Rightarrow>
          \<not> is_removed dev \<and> \<not> is_draining dev \<and> current_queue_depth dev = 1 \<and> io_completed dev = 0 \<and>
          read_call (completed dev) example_task = Ns_cmd_read 3 1 8 8 \<and>
          current_queue_depth (submitted (completed dev) 0) = 1"
    by code_simp
  then obtain dev where a: "deref busy_world 1 = Some dev" "\<not> is_removed dev" "\<not> is_draining dev"
    "current_queue_depth dev = 1" "io_completed dev = 0"
    "read_call (completed dev) example_task = Ns_cmd_read 3 1 8 8"
    "current_queue_depth (submitted (completed dev) 0) = 1"
    by (auto split: option.splits)
  have "case deref removed_world 1 of None \<Rightarrow> False | Some dev \<Rightarrow>
          is_removed dev \<and> current_queue_depth dev = 1 \<and> io_completed dev = 0"
    by code_simp
  then obtain dev2 where b: "deref removed_world 1 = Some dev2" "is_removed dev2"
    "current_queue_depth dev2 = 1" "io_completed dev2 = 0"
    by (auto split: option.splits)
  have t: "task_dev example_task = 1" by (simp add: example_task_def)
  from task_complete_result[of busy_world example_task dev 0, THEN conjunct2, THEN conjunct2,
      THEN conjunct2] a(1,2,3) t
  obtain s1 where s1: "task_complete example_task 0 busy_world = Inr s1"
    "calls s1 = calls busy_world @ [read_call (completed dev) example_task]"
    "deref s1 1 = Some (submitted (completed dev) 0)"
    by auto
  have 1: "\<exists>s' dev'. task_complete example_task 0 busy_world = Inr s' \<and> deref s' 1 = Some dev' \<and>
       current_queue_depth dev' = 1 \<and> io_completed dev' = 1 \<and>
       calls s' = calls busy_world @ [Ns_cmd_read 3 1 8 8]"
    using s1 a by (intro exI[of _ s1] exI[of _ "submitted (completed dev) 0"]) simp
  from task_complete_result[of removed_world example_task dev2 0, THEN conjunct2, THEN conjunct2,
      THEN conjunct2] b(1,2) t
  obtain s2 where s2: "task_complete example_task 0 removed_world = Inr s2"
    "calls s2 = calls removed_world" "deref s2 1 = Some (completed dev2)"
    by auto
  have 2: "\<exists>s' dev'. task_complete example_task 0 removed_world = Inr s' \<and> deref s' 1 = Some dev' \<and>
       current_queue_depth dev' = 0 \<and> io_completed dev' = 1 \<and> calls s' = calls removed_world"
    using s2 b by (intro exI[of _ s2] exI[of _ "completed dev2"]) simp
  from a b 1 2 show ?thesis by blast
qed

subsection \<open>remove_cb twice\<close>

lemma find_after_mark:
  "find (\<lambda>(p, dev). ctrlr dev = c) xs = Some (p, d) \<Longrightarrow> ctrlr d' = c \<Longrightarrow>
   find (\<lambda>(p, dev). ctrlr dev = c) (map (\<lambda>(q, e). if q = p then (q, d') else (q, e)) xs) = Some (p, d')"
proof (induction xs)
  case Nil
  then show ?case by simp
next
  case (Cons x xs)
  obtain q e where x: "x = (q, e)" by (cases x)
  show ?case
  proof (cases "ctrlr e = c")
    case True
    with Cons.prems x have "q = p" "e = d" by simp_all
    with Cons.prems x show ?thesis by simp
  next
    case False
    with Cons.prems x have "find (\<lambda>(p, dev). ctrlr dev = c) xs = Some (p, d)" by simp
    from Cons.IH[OF this Cons.prems(2)] False x Cons.prems(2) show ?thesis by simp
  qed
qed

text \<open>
  Claim C7. A second \<open>remove_cb\<close> for the same controller leaves the registry, with every
  field of every descriptor, as the first one left it; the pool and the reads in flight
  are untouched by both. For a tracked controller each call marks the first descriptor of
  that controller and prints the message, and neither detaches. For a controller that is
  not tracked each call detaches it and the registry stays as it was.
\<close>

theorem remove_cb_twice:
  "g_devs (remove_cb c (remove_cb c s)) = g_devs (remove_cb c s) \<and>
   task_pool (remove_cb c (remove_cb c s)) = task_pool s \<and>
   inflight (remove_cb c (remove_cb c s)) = inflight s \<and>
   (case find (\<lambda>(p, dev). ctrlr dev = c) (g_devs s) of
      Some (p, dev) \<Rightarrow>
        g_devs (remove_cb c s) = g_devs (store p (dev\<lparr>is_removed := True\<rparr>) s) \<and>
        calls (remove_cb c s) = calls s @ [Print (Controller_removed (name dev))] \<and>
        calls (remove_cb c (remove_cb c s)) =
          calls s @ [Print (Controller_removed (name dev)), Print (Controller_removed (name dev))]
    | None \<Rightarrow>
        g_devs (remove_cb c s) = g_devs s \<and>
        calls (remove_cb c s) = calls s @ [Nvme_detach c] \<and>
        calls (remove_cb c (remove_cb c s)) = calls s @ [Nvme_detach c, Nvme_detach c])"
proof (cases "find (\<lambda>(p, dev). ctrlr dev = c) (g_devs s)")
  case None
  then have r: "remove_cb c s = emit [Nvme_detach c] s" by (simp add: remove_cb_def)
  with None show ?thesis by (simp add: remove_cb_def)
next
  case (Some x)
  obtain p dev where x: "x = (p, dev)" by (cases x)
  let ?d = "dev\<lparr>is_removed := True\<rparr>"
  from Some x have f: "find (\<lambda>(p, dev). ctrlr dev = c) (g_devs s) = Some (p, dev)" by simp
  then have cd: "ctrlr dev = c" by (auto dest: find_Some_mem)
  have r: "remove_cb c s = emit [Print (Controller_removed (name dev))] (store p ?d s)"
    using f by (simp add: remove_cb_def)
  have f2: "find (\<lambda>(p, dev). ctrlr dev = c) (g_devs (remove_cb c s)) = Some (p, ?d)"
    unfolding r using find_after_mark[OF f, of ?d] cd by (simp add: store_def)
  have r2: "remove_cb c (remove_cb c s) =
      emit [Print (Controller_removed (name dev))] (store p ?d (remove_cb c s))"
    using f2 by (simp add: remove_cb_def[of c "remove_cb c s"])
  show ?thesis
    unfolding r2 using f by (simp add: r store_emit_comm)
qed

subsection \<open>parse_args\<close>

lemma usage_fields [simp]:
  "calls (usage a s) = calls s @ [Print (Usage a)]" "g_time_in_sec (usage a s) = g_time_in_sec s"
  "g_devs (usage a s) = g_devs s"
  by (simp_all add: usage_def)

lemma parse_args_while_Inr:
  "parse_args_while argv0 opts s = Inr s1 \<Longrightarrow>
     all_t opts \<and> calls s1 = calls s \<and>
     g_time_in_sec s1 = (if opts = [] then g_time_in_sec s else atoi (snd (last opts)))"
  by (induction argv0 opts s rule: parse_args_while.induct)
     (auto simp: all_t_def split: if_splits)

lemma parse_args_while_Inl:
  "parse_args_while argv0 opts s = Inl (rc, s1) \<Longrightarrow>
     \<not> all_t opts \<and> rc = 1 \<and> calls s1 = calls s @ [Print (Usage argv0)]"
  by (induction argv0 opts s rule: parse_args_while.induct)
     (auto simp: all_t_def split: if_splits)

lemma main_parse_failure:
  "parse_args (me_argv0 env) (getopt ''t:'' [] (me_args env)) start = (rc, s') \<Longrightarrow> rc \<noteq> 0 \<Longrightarrow>
   main env = Some (Inr (rc, s'))"
  by (simp add: main_def)

lemma parse_args_cases:
  assumes "parse_args argv0 opts s = (rc, s')"
  shows "(rc = 0 \<or> rc = 1) \<and>
         (rc = 0 \<longleftrightarrow> all_t opts \<and> opts \<noteq> [] \<and> atoi (snd (last opts)) \<noteq> 0) \<and>
         (rc = 0 \<longrightarrow> g_time_in_sec s' = atoi (snd (last opts)) \<and> g_time_in_sec s' \<noteq> 0 \<and>
                     calls s' = calls s) \<and>
         (rc = 1 \<longrightarrow> calls s' = calls s @ [Print (Usage argv0)])"
proof (cases "parse_args_while argv0 opts (s\<lparr>g_time_in_sec := 0\<rparr>)")
  case (Inl r)
  obtain rc1 s1 where r: "r = (rc1, s1)" by (cases r)
  from Inl r assms have "rc = rc1" "s' = s1" by (simp_all add: parse_args_def)
  with parse_args_while_Inl[OF Inl[unfolded r]] show ?thesis by simp
next
  case (Inr s1)
  from parse_args_while_Inr[OF Inr] have
    t: "all_t opts" and c: "calls s1 = calls s" and
    g: "g_time_in_sec s1 = (if opts = [] then 0 else atoi (snd (last opts)))"
    by simp_all
  show ?thesis
  proof (cases "g_time_in_sec s1 = 0")
    case True
    with Inr assms have "rc = 1" "s' = usage argv0 s1" by (simp_all add: parse_args_def)
    with True t c g show ?thesis by (simp split: if_splits)
  next
    case False
    with Inr assms have "rc = 0" "s' = s1" by (simp_all add: parse_args_def)
    with False t c g show ?thesis by (simp split: if_splits)
  qed
qed

text \<open>
  Claim C8 as stated does not hold: the only test of the duration is \<open>!g_time_in_sec\<close>,
  so a negative duration is accepted. With the arguments \<open>-t -5\<close>, \<open>parse_args\<close>
  returns 0 and the duration is \<open>-5\<close>.
\<close>

theorem parse_args_accepts_negative:
  "fst (parse_args ''hotplug'' (getopt ''t:'' [] [''-t'', ''-5'']) start) = 0 \<and>
   g_time_in_sec (snd (parse_args ''hotplug'' (getopt ''t:'' [] [''-t'', ''-5'']) start)) = - 5"
  by code_simp

text \<open>
  Claim C8, amended. \<open>parse_args\<close> returns 0 or 1. It returns 0 exactly when \<open>getopt\<close>
  returned the option \<open>t\<close> at least once and nothing else, and \<open>atoi\<close> of the last
  argument of \<open>t\<close> is not 0; the duration is then that number, which is not 0, and
  nothing is printed. In every other case (no duration, an unknown option, a missing
  argument, an argument that \<open>atoi\<close> reads as 0) it prints the usage and returns 1, and
  \<open>main\<close> returns that 1 as the exit code of the process.
\<close>

theorem parse_args_result:
  assumes "parse_args argv0 opts s = (rc, s')"
  shows "(rc = 0 \<or> rc = 1) \<and>
         (rc = 0 \<longleftrightarrow> all_t opts \<and> opts \<noteq> [] \<and> atoi (snd (last opts)) \<noteq> 0) \<and>
         (rc = 0 \<longrightarrow> g_time_in_sec s' = atoi (snd (last opts)) \<and> g_time_in_sec s' \<noteq> 0 \<and>
                     calls s' = calls s) \<and>
         (rc = 1 \<longrightarrow> calls s' = calls s @ [Print (Usage argv0)]) \<and>
         (\<forall>env. rc = 1 \<and> s = start \<and> argv0 = me_argv0 env \<and> opts = getopt ''t:'' [] (me_args env) \<longrightarrow>
            main env = Some (Inr (1, s')) \<and> exit_code (Inr (1, s')) = Some 1)"
  using parse_args_cases[OF assms] main_parse_failure assms by auto

theorem parse_args_result_witness:
  "fst (parse_args ''hotplug'' (getopt ''t:'' [] [''-t'', ''30'']) start) = 0 \<and>
   g_time_in_sec (snd (parse_args ''hotplug'' (getopt ''t:'' [] [''-t'', ''30'']) start)) = 30 \<and>
   fst (parse_args ''hotplug'' (getopt ''t:'' [] [''-t'', ''abc'']) start) = 1 \<and>
   calls (snd (parse_args ''hotplug'' (getopt ''t:'' [] [''-t'', ''abc'']) start)) = [Print (Usage ''hotplug'')] \<and>
   fst (parse_args ''hotplug'' (getopt ''t:'' [] []) start) = 1 \<and>
   fst (parse_args ''hotplug'' (getopt ''t:'' [] [''-x'', ''-t'', ''30'']) start) = 1 \<and>
   map_option exit_code (main (example_main [''-x'', ''-t'', ''30''])) = Some (Some 1)"
proof -
  have g: "getopt ''t:'' [] [''-t'', ''30''] = [(CHR ''t'', ''30'')]"
    "getopt ''t:'' [] [''-t'', ''abc''] = [(CHR ''t'', ''abc'')]"
    "getopt ''t:'' [] [] = []"
    "getopt ''t:'' [] [''-x'', ''-t'', ''30''] = [(CHR ''?'', []), (CHR ''t'', ''30'')]"
    by code_simp+
  have a: "atoi ''30'' = 30" "atoi ''abc'' = 0" by code_simp+
  have c: "calls start = []" by (simp add: start_def)
  have t: "all_t [(CHR ''t'', ''30'')]" "all_t [(CHR ''t'', ''abc'')]" "\<not> all_t [(CHR ''?'', []), (CHR ''t'', ''30'')]"
    by (simp_all add: all_t_def)
  have m: "me_argv0 (example_main [''-x'', ''-t'', ''30'']) = ''hotplug''"
    "me_args (example_main [''-x'', ''-t'', ''30'']) = [''-x'', ''-t'', ''30'']"
    by (simp_all add: example_main_def)
  note r = parse_args_result[OF surjective_pairing]
  from r[of "''hotplug''" "[(CHR ''?'', []), (CHR ''t'', ''30'')]" start] t
  have f: "fst (parse_args ''hotplug'' [(CHR ''?'', []), (CHR ''t'', ''30'')] start) = 1" by auto
  from r[of "''hotplug''" "[(CHR ''?'', []), (CHR ''t'', ''30'')]" start, THEN conjunct2,
    THEN conjunct2, THEN conjunct2, THEN conjunct2, rule_format, of "example_main [''-x'', ''-t'', ''30'']"] f m g(4)
  have e: "map_option exit_code (main (example_main [''-x'', ''-t'', ''30''])) = Some (Some 1)"
    by simp
  from r[of "''hotplug''" "[(CHR ''t'', ''30'')]" start]
       r[of "''hotplug''" "[(CHR ''t'', ''abc'')]" start]
       r[of "''hotplug''" "[]" start]
       r[of "''hotplug''" "[(CHR ''?'', []), (CHR ''t'', ''30'')]" start]
       a c t e
  show ?thesis unfolding g by auto
qed

subsection \<open>The queue depth stays within its bound\<close>

lemma deref_Some_iff:
  "distinct (map fst (g_devs s)) \<Longrightarrow> deref s p = Some d \<longleftrightarrow> (p, d) \<in> set (g_devs s)"
  by (simp add: deref_def)

lemma deref_None_iff: "deref s p = None \<longleftrightarrow> p \<notin> set (map fst (g_devs s))"
  by (simp add: deref_def map_of_eq_None_iff)

lemma sync_inv_iff:
  "sync_inv s \<longleftrightarrow>
     distinct (map fst (g_devs s)) \<and>
     (\<forall>p d. deref s p = Some d \<longrightarrow>
        unat (current_queue_depth d) = outstanding (inflight s) p \<and>
        outstanding (inflight s) p \<le> nat g_queue_depth) \<and>
     (\<forall>q t. (q, t) \<in> set (inflight s) \<longrightarrow> deref s (task_dev t) \<noteq> None)"
proof (cases "distinct (map fst (g_devs s))")
  case False
  then show ?thesis by (simp add: sync_inv_def synced_def)
next
  case True
  have a: "list_all (\<lambda>(p, dev). unat (current_queue_depth dev) = outstanding (inflight s) p \<and>
                           outstanding (inflight s) p \<le> nat g_queue_depth) (g_devs s) \<longleftrightarrow>
        (\<forall>p d. deref s p = Some d \<longrightarrow>
        unat (current_queue_depth d) = outstanding (inflight s) p \<and>
        outstanding (inflight s) p \<le> nat g_queue_depth)"
    by (auto simp: list_all_iff deref_Some_iff[OF True])
  have b: "list_all (\<lambda>(q, t). task_dev t \<in> set (map fst (g_devs s))) (inflight s) \<longleftrightarrow>
       (\<forall>q t. (q, t) \<in> set (inflight s) \<longrightarrow> deref s (task_dev t) \<noteq> None)"
    by (auto simp: list_all_iff deref_None_iff)
  show ?thesis using True by (simp only: sync_inv_def synced_def a b simp_thms)
qed

lemma new_idle_iff:
  "distinct (map fst (g_devs s)) \<Longrightarrow>
   list_all (\<lambda>(p, dev). is_new dev \<longrightarrow> current_queue_depth dev = 0) (g_devs s) \<longleftrightarrow>
   (\<forall>p d. deref s p = Some d \<longrightarrow> is_new d \<longrightarrow> current_queue_depth d = 0)"
  by (auto simp: list_all_iff deref_Some_iff)

lemma depth_inv_iff:
  "depth_inv s \<longleftrightarrow> sync_inv s \<and> (\<forall>p d. deref s p = Some d \<longrightarrow> is_new d \<longrightarrow> current_queue_depth d = 0)"
  using new_idle_iff[of s] by (auto simp: depth_inv_def sync_inv_iff)

lemma g_queue_depth_word: "unat (word_of_int g_queue_depth :: u64) = nat g_queue_depth"
  by (simp add: g_queue_depth_def)

lemma depth_inv_bounded: "depth_inv s \<Longrightarrow> depth_bounded s"
proof -
  assume "depth_inv s"
  then have d: "distinct (map fst (g_devs s))" and
    b: "\<And>p d. deref s p = Some d \<Longrightarrow> unat (current_queue_depth d) \<le> nat g_queue_depth"
    by (auto simp: depth_inv_iff sync_inv_iff)
  show ?thesis
    unfolding depth_bounded_def list_all_iff
  proof (clarify)
    fix p dev assume "(p, dev) \<in> set (g_devs s)"
    then have "deref s p = Some dev" using d by (simp add: deref_Some_iff)
    from b[OF this] show "0 \<le> current_queue_depth dev \<and> current_queue_depth dev \<le> word_of_int g_queue_depth"
      by (simp add: word_le_nat_alt g_queue_depth_word)
  qed
qed

lemma outstanding_simps [simp]:
  "outstanding [] p = 0"
  "outstanding (fl @ [(q, t)]) p = (if task_dev t = p then Suc (outstanding fl p) else outstanding fl p)"
  by (simp_all add: outstanding_def)

lemma outstanding_pos: "(q, t) \<in> set fl \<Longrightarrow> 0 < outstanding fl (task_dev t)"
  by (induction fl) (auto simp: outstanding_def)

lemma outstanding_Cons:
  "outstanding ((q, t) # fl) p = (if task_dev t = p then Suc (outstanding fl p) else outstanding fl p)"
  by (simp add: outstanding_def)

lemma outstanding_remove1:
  "(q, t) \<in> set fl \<Longrightarrow>
   outstanding (remove1 (q, t) fl) p = (if task_dev t = p then outstanding fl p - 1 else outstanding fl p)"
proof (induction fl)
  case Nil
  then show ?case by simp
next
  case (Cons x fl)
  obtain q' t' where x: "x = (q', t')" by (cases x)
  show ?case
  proof (cases "x = (q, t)")
    case True
    then show ?thesis using x by (simp add: outstanding_Cons)
  next
    case False
    with Cons.prems have mem: "(q, t) \<in> set fl" by simp
    from outstanding_pos[OF mem] have "task_dev t = p \<Longrightarrow> 0 < outstanding fl p" by auto
    with Cons.IH[OF mem] False x show ?thesis
      by (auto simp: outstanding_Cons)
  qed
qed

lemma outstanding_0_iff: "outstanding fl p = 0 \<longleftrightarrow> (\<forall>(q, t) \<in> set fl. task_dev t \<noteq> p)"
  by (induction fl) (auto simp: outstanding_def)

lemma unat_inc_small: "unat (x :: u64) < nat g_queue_depth \<Longrightarrow> unat (x + 1) = Suc (unat x)"
proof -
  assume "unat x < nat g_queue_depth"
  then have "unat x + unat (1 :: u64) < 2 ^ LENGTH(64)" by (simp add: g_queue_depth_def)
  then show ?thesis by (simp add: unat_add_lem[THEN iffD1])
qed

lemma unat_dec_pos: "0 < unat (x :: u64) \<Longrightarrow> unat (x - 1) = unat x - 1"
  by (simp add: unat_gt_0 unat_minus_one)

lemma sync_invI:
  assumes "distinct (map fst (g_devs s))"
    and "\<And>p d. deref s p = Some d \<Longrightarrow>
        unat (current_queue_depth d) = outstanding (inflight s) p \<and>
        outstanding (inflight s) p \<le> nat g_queue_depth"
    and "\<And>q t. (q, t) \<in> set (inflight s) \<Longrightarrow> deref s (task_dev t) \<noteq> None"
  shows "sync_inv s"
  using assms by (simp add: sync_inv_iff)

lemma sync_invD:
  assumes "sync_inv s"
  shows "distinct (map fst (g_devs s))"
    and "\<And>p d. deref s p = Some d \<Longrightarrow> unat (current_queue_depth d) = outstanding (inflight s) p"
    and "\<And>p d. deref s p = Some d \<Longrightarrow> outstanding (inflight s) p \<le> nat g_queue_depth"
    and "\<And>q t. (q, t) \<in> set (inflight s) \<Longrightarrow> deref s (task_dev t) \<noteq> None"
  using assms by (simp_all add: sync_inv_iff)

lemma depth_inv_cong:
  "g_devs s' = g_devs s \<Longrightarrow> inflight s' = inflight s \<Longrightarrow> depth_inv s' = depth_inv s"
  by (simp add: depth_inv_def sync_inv_def)

lemma deref_cong: "g_devs s' = g_devs s \<Longrightarrow> deref s' p = deref s p"
  by (simp add: deref_def)

lemma submit_single_io_sync:
  assumes inv: "sync_inv s" and d: "deref s p = Some d"
    and room: "unat (current_queue_depth d) < nat g_queue_depth"
    and run: "submit_single_io p rc s = Inr s'"
  shows "sync_inv s' \<and> map fst (g_devs s') = map fst (g_devs s) \<and>
         deref s' p = Some (submitted d rc) \<and> (\<forall>q. q \<noteq> p \<longrightarrow> deref s' q = deref s q)"
proof -
  from run obtain t free where pool: "task_pool s = t # free"
    by (rule submit_single_io_cases)
  let ?fl = "if rc = 0 then inflight s @ [(qpair d, t\<lparr>task_dev := p\<rparr>)] else inflight s"
  from run submit_single_io_eq[OF d pool, of rc]
  have s': "s' = (store p (submitted d rc) s)
          \<lparr>task_pool := (if rc = 0 then free else t\<lparr>task_dev := p\<rparr> # free),
           inflight := ?fl,
           calls := calls s @ read_call d t # (if rc = 0 then [] else [Print Starting_io_failed])\<rparr>"
    by simp
  have g: "g_devs s' = g_devs (store p (submitted d rc) s)" and fl: "inflight s' = ?fl"
    unfolding s' by simp_all
  have dr: "\<And>q. deref s' q = (if q = p then Some (submitted d rc) else deref s q)"
    using d by (simp add: deref_cong[OF g] deref_store)
  have addrs: "map fst (g_devs s') = map fst (g_devs s)" by (simp add: g)
  note D = sync_invD[OF inv]
  have out: "\<And>q. outstanding (inflight s') q =
      (if rc = 0 \<and> q = p then Suc (outstanding (inflight s) q) else outstanding (inflight s) q)"
    by (auto simp: fl)
  have "sync_inv s'"
  proof (rule sync_invI)
    show "distinct (map fst (g_devs s'))" using D(1) addrs by simp
  next
    fix q e assume "deref s' q = Some e"
    then show "unat (current_queue_depth e) = outstanding (inflight s') q \<and>
               outstanding (inflight s') q \<le> nat g_queue_depth"
      using D(2)[OF d] D(2)[of q e] D(3)[of q e] room unat_inc_small[OF room]
      by (auto simp: dr out split: if_splits)
  next
    fix q u assume "(q, u) \<in> set (inflight s')"
    then show "deref s' (task_dev u) \<noteq> None"
      using D(4) d by (auto simp: fl dr split: if_splits)
  qed
  with addrs dr show ?thesis by simp
qed

lemma depth_invI:
  "sync_inv s \<Longrightarrow> (\<And>p d. deref s p = Some d \<Longrightarrow> is_new d \<Longrightarrow> current_queue_depth d = 0) \<Longrightarrow> depth_inv s"
  by (simp add: depth_inv_iff)

lemma depth_invD:
  assumes "depth_inv s"
  shows "sync_inv s" and "\<And>p d. deref s p = Some d \<Longrightarrow> is_new d \<Longrightarrow> current_queue_depth d = 0"
  using assms by (auto simp: depth_inv_iff)

lemma io_complete_depth_inv:
  assumes inv: "depth_inv s" and mem: "(q, t) \<in> set (inflight s)"
  shows "\<exists>s'. io_complete t rc (s\<lparr>inflight := remove1 (q, t) (inflight s)\<rparr>) = Inr s' \<and>
              depth_inv s' \<and> map fst (g_devs s') = map fst (g_devs s)"
proof -
  let ?p = "task_dev t"
  let ?s0 = "s\<lparr>inflight := remove1 (q, t) (inflight s)\<rparr>"
  note S = depth_invD[OF inv]
  note D = sync_invD[OF S(1)]
  from D(4)[OF mem] obtain d where d: "deref s ?p = Some d" by auto
  from outstanding_pos[OF mem] D(2)[OF d] have pos: "0 < unat (current_queue_depth d)" by simp
  then have notnew: "\<not> is_new d" using S(2)[OF d] by auto
  have d0: "deref ?s0 ?p = Some d" using d by simp
  let ?s1 = "after_completion t d ?s0"
  have g1: "map fst (g_devs ?s1) = map fst (g_devs s)" by simp
  have dr1: "\<And>r. deref ?s1 r = (if r = ?p then Some (completed d) else deref s r)"
    using d by (simp add: deref_after_completion)
  have fl1: "inflight ?s1 = remove1 (q, t) (inflight s)" by simp
  have out1: "\<And>r. outstanding (remove1 (q, t) (inflight s)) r =
      (if r = ?p then outstanding (inflight s) r - 1 else outstanding (inflight s) r)"
    by (auto simp: outstanding_remove1[OF mem])
  have sync1: "sync_inv ?s1"
  proof (rule sync_invI)
    show "distinct (map fst (g_devs ?s1))" using D(1) g1 by simp
  next
    fix r e assume "deref ?s1 r = Some e"
    then show "unat (current_queue_depth e) = outstanding (inflight ?s1) r \<and>
               outstanding (inflight ?s1) r \<le> nat g_queue_depth"
      using D(2)[OF d] D(3)[OF d] D(2)[of r e] D(3)[of r e] unat_dec_pos[OF pos]
      by (auto simp: dr1 fl1 out1 split: if_splits)
  next
    fix r u assume "(r, u) \<in> set (inflight ?s1)"
    then have "(r, u) \<in> set (inflight s)" using set_remove1_subset[of "(q, t)" "inflight s"] by (auto simp: fl1)
    from D(4)[OF this] show "deref ?s1 (task_dev u) \<noteq> None" by (simp add: dr1)
  qed
  have room: "unat (current_queue_depth (completed d)) < nat g_queue_depth"
    using D(2)[OF d] D(3)[OF d] unat_dec_pos[OF pos] pos by simp
  have new1: "\<And>r e. deref ?s1 r = Some e \<Longrightarrow> is_new e \<Longrightarrow> current_queue_depth e = 0"
    using S(2) notnew by (auto simp: dr1 split: if_splits)
  show ?thesis
  proof (cases "resubmits d")
    case False
    then have "io_complete t rc ?s0 = Inr ?s1"
      by (simp add: io_complete_def task_complete_eq[OF d0])
    moreover have "depth_inv ?s1" using sync1 new1 by (rule depth_invI)
    ultimately show ?thesis using g1 by blast
  next
    case True
    then have eq: "io_complete t rc ?s0 = submit_single_io ?p rc ?s1"
      by (simp add: io_complete_def task_complete_eq[OF d0])
    have d1: "deref ?s1 ?p = Some (completed d)" by (simp add: dr1)
    have "task_pool ?s1 = t # task_pool ?s0" by simp
    from submit_single_io_eq[OF d1 this, of rc] obtain s' where
      run: "submit_single_io ?p rc ?s1 = Inr s'" by blast
    from submit_single_io_sync[OF sync1 d1 room run] have
      r: "sync_inv s'" "map fst (g_devs s') = map fst (g_devs ?s1)"
         "deref s' ?p = Some (submitted (completed d) rc)"
         "\<And>r. r \<noteq> ?p \<Longrightarrow> deref s' r = deref ?s1 r"
      by auto
    have "depth_inv s'"
    proof (rule depth_invI[OF r(1)])
      fix r' e assume a: "deref s' r' = Some e" "is_new e"
      show "current_queue_depth e = 0"
      proof (cases "r' = ?p")
        case True
        with a r(3) notnew show ?thesis by auto
      next
        case False
        with a r(4) new1 show ?thesis by auto
      qed
    qed
    with eq run r(2) g1 show ?thesis by simp
  qed
qed

lemma find_qpair_mem: "find (\<lambda>(q', t). q' = q) fl = Some x \<Longrightarrow> x \<in> set fl"
  by (auto dest: find_Some_mem)

lemma qpair_process_completions_depth_inv:
  "depth_inv s \<Longrightarrow>
   \<exists>s'. qpair_process_completions q batch s = Inr s' \<and> depth_inv s' \<and>
        map fst (g_devs s') = map fst (g_devs s)"
proof (induction batch arbitrary: s)
  case Nil
  then show ?case by simp
next
  case (Cons rc rcs)
  show ?case
  proof (cases "find (\<lambda>(q', t). q' = q) (inflight s)")
    case None
    with Cons.prems show ?thesis by simp
  next
    case (Some x)
    obtain q' t where x: "x = (q', t)" by (cases x)
    from Some x have mem: "(q', t) \<in> set (inflight s)" by (auto dest: find_qpair_mem)
    from io_complete_depth_inv[OF Cons.prems mem, of rc] obtain s1 where
      s1: "io_complete t rc (s\<lparr>inflight := remove1 (q', t) (inflight s)\<rparr>) = Inr s1"
          "depth_inv s1" "map fst (g_devs s1) = map fst (g_devs s)"
      by blast
    from Cons.IH[OF s1(2)] obtain s' where
      "qpair_process_completions q rcs s1 = Inr s'" "depth_inv s'"
      "map fst (g_devs s') = map fst (g_devs s1)"
      by blast
    with Some x s1 show ?thesis by simp
  qed
qed

lemma check_io_depth_inv:
  "depth_inv s \<Longrightarrow> deref s p \<noteq> None \<Longrightarrow>
   \<exists>s'. check_io p batch s = Inr s' \<and> depth_inv s' \<and> map fst (g_devs s') = map fst (g_devs s)"
  using qpair_process_completions_depth_inv by (auto simp: check_io_def)

lemma submit_io_sync:
  "sync_inv s \<Longrightarrow> deref s p = Some d \<Longrightarrow>
   unat (current_queue_depth d) + nat n \<le> nat g_queue_depth \<Longrightarrow>
   submit_io p n rcs s = Inr s' \<Longrightarrow>
   sync_inv s' \<and> map fst (g_devs s') = map fst (g_devs s) \<and>
   (\<exists>d'. deref s' p = Some d' \<and> is_new d' = is_new d) \<and>
   (\<forall>q. q \<noteq> p \<longrightarrow> deref s' q = deref s q)"
proof (induction p n rcs s arbitrary: d rule: submit_io.induct)
  case (1 p n rcs s)
  show ?case
  proof (cases "n > 0")
    case False
    with "1.prems" show ?thesis by (simp add: submit_io.simps[of p n])
  next
    case True
    let ?rc = "case rcs of [] \<Rightarrow> 0 | rc # _ \<Rightarrow> rc"
    from True "1.prems"(4) obtain s1 where
      one: "submit_single_io p ?rc s = Inr s1" and rest: "submit_io p (n - 1) (tl rcs) s1 = Inr s'"
      by (subst (asm) submit_io.simps) (auto split: sum.splits)
    from True "1.prems"(3) have room: "unat (current_queue_depth d) < nat g_queue_depth" by simp
    from submit_single_io_sync[OF "1.prems"(1,2) room one] have
      r: "sync_inv s1" "map fst (g_devs s1) = map fst (g_devs s)"
         "deref s1 p = Some (submitted d ?rc)" "\<And>q. q \<noteq> p \<Longrightarrow> deref s1 q = deref s q"
      by auto
    have "unat (current_queue_depth (submitted d ?rc)) \<le> Suc (unat (current_queue_depth d))"
      using unat_inc_small[OF room] by simp
    with True "1.prems"(3) have
      room': "unat (current_queue_depth (submitted d ?rc)) + nat (n - 1) \<le> nat g_queue_depth"
      by simp
    from "1.IH"[OF True one r(1) r(3) room' rest] r show ?thesis by simp
  qed
qed

lemma store_flag_depth_inv:
  assumes inv: "depth_inv s" and d: "deref s p = Some d"
    and c: "current_queue_depth d' = current_queue_depth d" and n: "is_new d' \<longrightarrow> is_new d"
  shows "depth_inv (store p d' s)"
proof -
  note S = depth_invD[OF inv]
  note D = sync_invD[OF S(1)]
  have dr: "\<And>q. deref (store p d' s) q = (if q = p then Some d' else deref s q)"
    using d by (simp add: deref_store)
  have "sync_inv (store p d' s)"
  proof (rule sync_invI)
    show "distinct (map fst (g_devs (store p d' s)))" using D(1) by simp
  next
    fix q e assume "deref (store p d' s) q = Some e"
    then show "unat (current_queue_depth e) = outstanding (inflight (store p d' s)) q \<and>
               outstanding (inflight (store p d' s)) q \<le> nat g_queue_depth"
      using D(2)[OF d] D(3)[OF d] D(2)[of q e] D(3)[of q e] c
      by (auto simp: dr split: if_splits)
  next
    fix q u assume "(q, u) \<in> set (inflight (store p d' s))"
    then show "deref (store p d' s) (task_dev u) \<noteq> None"
      using D(4)[of q u] by (simp add: dr)
  qed
  then show ?thesis
  proof (rule depth_invI)
    fix q e assume "deref (store p d' s) q = Some e" "is_new e"
    then show "current_queue_depth e = 0"
      using S(2)[OF d] S(2)[of q e] c n by (auto simp: dr split: if_splits)
  qed
qed

lemma poll_dev_depth_inv:
  assumes inv: "depth_inv s" and run: "poll_dev p io s = Inr s'"
  shows "depth_inv s' \<and> map fst (g_devs s') = map fst (g_devs s)"
proof -
  from run obtain d where d: "deref s p = Some d"
    by (auto simp: poll_dev_def split: option.splits)
  note S = depth_invD[OF inv]
  show ?thesis
  proof (cases "is_new d")
    case False
    with run d have "check_io p (snd io) s = Inr s'" by (simp add: poll_dev_def)
    with check_io_depth_inv[OF inv, of p "snd io"] d show ?thesis by auto
  next
    case True
    with run d obtain s1 d1 where
      burst: "submit_io p g_queue_depth (fst io) s = Inr s1" and d1: "deref s1 p = Some d1" and
      chk: "check_io p (snd io) (store p (d1\<lparr>is_new := False\<rparr>) s1) = Inr s'"
      by (auto simp: poll_dev_def split: sum.splits option.splits)
    from S(2)[OF d True] have "unat (current_queue_depth d) + nat g_queue_depth \<le> nat g_queue_depth"
      by simp
    from submit_io_sync[OF S(1) d this burst] have
      r: "sync_inv s1" "map fst (g_devs s1) = map fst (g_devs s)"
         "\<And>q. q \<noteq> p \<Longrightarrow> deref s1 q = deref s q"
      by auto
    let ?s2 = "store p (d1\<lparr>is_new := False\<rparr>) s1"
    have dr2: "\<And>q. deref ?s2 q = (if q = p then Some (d1\<lparr>is_new := False\<rparr>) else deref s q)"
      using d1 r(3) by (simp add: deref_store)
    note D1 = sync_invD[OF r(1)]
    have "sync_inv ?s2"
    proof (rule sync_invI)
      show "distinct (map fst (g_devs ?s2))" using D1(1) by simp
    next
      fix q e assume "deref ?s2 q = Some e"
      then show "unat (current_queue_depth e) = outstanding (inflight ?s2) q \<and>
               outstanding (inflight ?s2) q \<le> nat g_queue_depth"
        using D1(2)[OF d1] D1(3)[OF d1] D1(2)[of q e] D1(3)[of q e] r(3)[of q]
        by (auto simp: dr2 split: if_splits)
    next
      fix q u assume "(q, u) \<in> set (inflight ?s2)"
      then show "deref ?s2 (task_dev u) \<noteq> None"
        using D1(4)[of q u] d1 by (auto simp: deref_store)
    qed
    then have inv2: "depth_inv ?s2"
    proof (rule depth_invI)
      fix q e assume "deref ?s2 q = Some e" "is_new e"
      then show "current_queue_depth e = 0"
        using S(2)[of q e] by (auto simp: dr2 split: if_splits)
    qed
    have "deref ?s2 p \<noteq> None" by (simp add: dr2)
    from check_io_depth_inv[OF inv2 this, of "snd io"] chk r(2) show ?thesis by auto
  qed
qed

lemma poll_devs_depth_inv:
  "depth_inv s \<Longrightarrow> poll_devs ps ios s = Inr s' \<Longrightarrow>
   depth_inv s' \<and> map fst (g_devs s') = map fst (g_devs s)"
proof (induction ps arbitrary: ios s)
  case Nil
  then show ?case by simp
next
  case (Cons p ps)
  from Cons.prems(2) obtain s1 where
    one: "poll_dev p (case ios of [] \<Rightarrow> ([], []) | io # _ \<Rightarrow> io) s = Inr s1" and
    rest: "poll_devs ps (tl ios) s1 = Inr s'"
    by (auto split: sum.splits)
  from poll_dev_depth_inv[OF Cons.prems(1) one] Cons.IH[OF _ rest] show ?case by simp
qed

lemma registered_fresh [simp]:
  "current_queue_depth (registered c n) = 0" "is_new (registered c n)"
  by (simp_all add: registered_def new_dev_def)

lemma register_dev_inflight: "register_dev c ok s = Inr s' \<Longrightarrow> inflight s' = inflight s"
  by (auto simp: register_dev_def Let_def split: option.splits if_splits)

lemma register_dev_depth_inv:
  assumes inv: "depth_inv s" and run: "register_dev c ok s = Inr s'"
  shows "depth_inv s'"
proof (cases "g_devs s' = g_devs s")
  case True
  with register_dev_inflight[OF run] inv show ?thesis using depth_inv_cong[of s' s] by simp
next
  case False
  from register_dev_inserted[OF run False] obtain n where
    g: "g_devs s' = g_devs s @ [(calloc_dev s, registered c n)]" by auto
  note fl = register_dev_inflight[OF run]
  note S = depth_invD[OF inv]
  note D = sync_invD[OF S(1)]
  let ?p = "calloc_dev s"
  have fresh: "deref s ?p = None" using calloc_dev_fresh[of s] by (simp add: deref_None_iff)
  have dr: "\<And>q. deref s' q = (if q = ?p then Some (registered c n) else deref s q)"
    using fresh by (auto simp: deref_def g map_add_def split: option.splits)
  have "\<And>q u. (q, u) \<in> set (inflight s) \<Longrightarrow> task_dev u \<noteq> ?p"
  proof
    fix q u assume "(q, u) \<in> set (inflight s)" "task_dev u = ?p"
    with D(4)[of q u] fresh show False by simp
  qed
  then have "outstanding (inflight s) ?p = 0"
    unfolding outstanding_0_iff by auto
  then have out: "outstanding (inflight s') ?p = 0" by (simp add: fl)
  have "sync_inv s'"
  proof (rule sync_invI)
    show "distinct (map fst (g_devs s'))" using D(1) calloc_dev_fresh[of s] by (simp add: g)
  next
    fix q e assume "deref s' q = Some e"
    then show "unat (current_queue_depth e) = outstanding (inflight s') q \<and>
               outstanding (inflight s') q \<le> nat g_queue_depth"
      using D(2)[of q e] D(3)[of q e] out by (auto simp: dr fl split: if_splits)
  next
    fix q u assume "(q, u) \<in> set (inflight s')"
    then show "deref s' (task_dev u) \<noteq> None" using D(4)[of q u] by (simp add: dr fl)
  qed
  then show ?thesis
  proof (rule depth_invI)
    fix q e assume "deref s' q = Some e" "is_new e"
    then show "current_queue_depth e = 0" using S(2)[of q e] by (auto simp: dr split: if_splits)
  qed
qed

lemma depth_inv_emit [simp]: "depth_inv (emit cs s) = depth_inv s"
  by (rule depth_inv_cong) simp_all

lemma remove_cb_depth_inv: "depth_inv s \<Longrightarrow> depth_inv (remove_cb c s)"
proof (cases "find (\<lambda>(p, dev). ctrlr dev = c) (g_devs s)")
  case None
  assume "depth_inv s"
  with None show ?thesis by (simp add: remove_cb_def)
next
  case (Some x)
  assume inv: "depth_inv s"
  obtain p d where x: "x = (p, d)" by (cases x)
  from Some x have "(p, d) \<in> set (g_devs s)" by (auto dest: find_Some_mem)
  then have d: "deref s p = Some d"
    using sync_invD(1)[OF depth_invD(1)[OF inv]] by (simp add: deref_Some_iff)
  from store_flag_depth_inv[OF inv d, of "d\<lparr>is_removed := True\<rparr>"] Some x
  show ?thesis by (simp add: remove_cb_def)
qed

lemma deliver_depth_inv: "depth_inv s \<Longrightarrow> deliver e s = Inr s' \<Longrightarrow> depth_inv s'"
proof (cases e)
  case (Attach c ok)
  assume "depth_inv s" "deliver e s = Inr s'"
  with Attach register_dev_depth_inv[of "emit [Print Attached_to] (emit [Print Attaching_to] s)" c ok s']
  show ?thesis by (simp add: probe_cb_def attach_cb_def)
next
  case (Remove c)
  assume "depth_inv s" "deliver e s = Inr s'"
  with Remove remove_cb_depth_inv[of s c] show ?thesis by auto
qed

lemma spdk_nvme_probe_depth_inv:
  "depth_inv s \<Longrightarrow> spdk_nvme_probe events rc s = Inr (rc', s') \<Longrightarrow> depth_inv s'"
proof (induction events arbitrary: s)
  case Nil
  then show ?case by simp
next
  case (Cons e es)
  from Cons.prems(2) obtain s1 where "deliver e s = Inr s1" "spdk_nvme_probe es rc s1 = Inr (rc', s')"
    by (auto split: sum.splits)
  with Cons.IH deliver_depth_inv[OF Cons.prems(1)] show ?case by blast
qed

lemma unregister_dev_eq:
  "deref s p = Some d \<Longrightarrow>
   unregister_dev p s = Inr (emit [Print (Unregister_dev (name d)), Ctrlr_free_io_qpair (qpair d),
       Nvme_detach (ctrlr d), Free p d] (s\<lparr>g_devs := filter (\<lambda>(q, e). q \<noteq> p) (g_devs s)\<rparr>))"
  by (simp add: unregister_dev_def Let_def emit_def)

lemma map_of_filter_neq:
  "map_of (filter (\<lambda>(q, e). q \<noteq> p) xs) r = (if r = p then None else map_of xs r)"
  by (induction xs) auto

lemma unregister_dev_depth_inv:
  assumes inv: "depth_inv s" and d: "deref s p = Some d" and idle: "current_queue_depth d = 0"
    and run: "unregister_dev p s = Inr s'"
  shows "depth_inv s'"
proof -
  note S = depth_invD[OF inv]
  note D = sync_invD[OF S(1)]
  from run unregister_dev_eq[OF d] have
    g: "g_devs s' = filter (\<lambda>(q, e). q \<noteq> p) (g_devs s)" and fl: "inflight s' = inflight s"
    by auto
  have dr: "\<And>r. deref s' r = (if r = p then None else deref s r)"
    by (simp add: deref_def g map_of_filter_neq)
  from D(2)[OF d] idle have "outstanding (inflight s) p = 0" by simp
  then have none: "\<And>q u. (q, u) \<in> set (inflight s) \<Longrightarrow> task_dev u \<noteq> p"
    by (auto simp: outstanding_0_iff)
  have "sync_inv s'"
  proof (rule sync_invI)
    show "distinct (map fst (g_devs s'))" using D(1) by (simp add: g distinct_map_filter)
  next
    fix q e assume "deref s' q = Some e"
    then show "unat (current_queue_depth e) = outstanding (inflight s') q \<and>
               outstanding (inflight s') q \<le> nat g_queue_depth"
      using D(2)[of q e] D(3)[of q e] by (auto simp: dr fl split: if_splits)
  next
    fix q u assume "(q, u) \<in> set (inflight s')"
    then show "deref s' (task_dev u) \<noteq> None" using D(4)[of q u] none[of q u] by (simp add: dr fl)
  qed
  then show ?thesis
  proof (rule depth_invI)
    fix q e assume "deref s' q = Some e" "is_new e"
    then show "current_queue_depth e = 0" using S(2)[of q e] by (auto simp: dr split: if_splits)
  qed
qed

lemma sweep_dev_depth_inv: "depth_inv s \<Longrightarrow> sweep_dev p s = Inr s' \<Longrightarrow> depth_inv s'"
  by (auto simp: sweep_dev_def split: option.splits if_splits intro: unregister_dev_depth_inv)

lemma sweep_depth_inv: "depth_inv s \<Longrightarrow> sweep ps s = Inr s' \<Longrightarrow> depth_inv s'"
proof (induction ps arbitrary: s)
  case Nil
  then show ?case by simp
next
  case (Cons p ps)
  from Cons.prems(2) obtain s1 where "sweep_dev p s = Inr s1" "sweep ps s1 = Inr s'"
    by (auto split: sum.splits)
  with Cons.IH sweep_dev_depth_inv[OF Cons.prems(1)] show ?case by blast
qed

lemma print_stats_depth_inv: "depth_inv s \<Longrightarrow> depth_inv (print_stats s)"
proof -
  assume inv: "depth_inv s"
  have g: "g_devs (print_stats s) = map (\<lambda>(p, dev). (p, dev\<lparr>prev_io_completed := io_completed dev\<rparr>)) (g_devs s)"
    and fl: "inflight (print_stats s) = inflight s"
    by (simp_all add: print_stats_def)
  have m: "map fst (g_devs (print_stats s)) = map fst (g_devs s)"
    by (simp add: g case_prod_unfold comp_def)
  from inv show ?thesis
    unfolding depth_inv_def sync_inv_def synced_def m fl
    by (simp add: g list_all_iff case_prod_unfold)
qed

lemma drain_io_while_depth_inv:
  "depth_inv s \<Longrightarrow> drain_io_while p batches s = Some (Inr s') \<Longrightarrow>
   depth_inv s' \<and> (\<exists>d. deref s' p = Some d \<and> current_queue_depth d = 0)"
proof (induction p batches s rule: drain_io_while.induct)
  case (1 p batches s)
  from "1.prems"(2) obtain d where d: "deref s p = Some d"
    by (subst (asm) drain_io_while.simps) (auto split: option.splits)
  show ?case
  proof (cases "current_queue_depth d > 0")
    case False
    with "1.prems" d show ?thesis
      by (subst (asm) drain_io_while.simps) (simp add: word_neq_0_conv[symmetric])
  next
    case True
    with "1.prems"(2) d obtain b bs s1 where
      b: "batches = b # bs" and c: "check_io p b s = Inr s1" and r: "drain_io_while p bs s1 = Some (Inr s')"
      by (subst (asm) drain_io_while.simps) (auto split: list.splits sum.splits)
    from check_io_depth_inv[OF "1.prems"(1), of p b] d c have "depth_inv s1" by auto
    from "1.IH"[OF d True b c this r] show ?thesis .
  qed
qed

lemma drain_io_depth_inv:
  assumes "depth_inv s" and "drain_io p batches s = Some (Inr s')"
  shows "depth_inv s' \<and> (\<exists>d. deref s' p = Some d \<and> current_queue_depth d = 0)"
proof -
  from assms(2) obtain d where d: "deref s p = Some d"
    and w: "drain_io_while p batches (store p (d\<lparr>is_draining := True\<rparr>) s) = Some (Inr s')"
    by (auto simp: drain_io_def split: option.splits)
  from store_flag_depth_inv[OF assms(1) d, of "d\<lparr>is_draining := True\<rparr>"]
  have "depth_inv (store p (d\<lparr>is_draining := True\<rparr>) s)" by simp
  from drain_io_while_depth_inv[OF this w] show ?thesis .
qed

lemma drain_all_observed_depth_inv:
  "depth_inv s \<Longrightarrow> list_all depth_inv (drain_all_observed ps bss s)"
proof (induction ps arbitrary: bss s)
  case Nil
  then show ?case by simp
next
  case (Cons p ps)
  let ?bs = "case bss of [] \<Rightarrow> [] | bs # _ \<Rightarrow> bs"
  show ?case
  proof (cases "drain_io p ?bs s")
    case None
    with Cons.prems show ?thesis by simp
  next
    case (Some r)
    show ?thesis
    proof (cases r)
      case (Inl x)
      with Some Cons.prems show ?thesis by simp
    next
      case (Inr s1)
      from drain_io_depth_inv[OF Cons.prems Some[unfolded Inr]] obtain d where
        i1: "depth_inv s1" and d: "deref s1 p = Some d" "current_queue_depth d = 0" by auto
      show ?thesis
      proof (cases "unregister_dev p s1")
        case (Inl x)
        with Some Inr Cons.prems i1 show ?thesis by simp
      next
        case u: (Inr s2)
        from unregister_dev_depth_inv[OF i1 d u] have "depth_inv s2" .
        from Cons.IH[OF this] Some Inr u Cons.prems i1 show ?thesis by simp
      qed
    qed
  qed
qed

lemma io_loop_observed_depth_inv:
  "depth_inv s \<Longrightarrow> list_all depth_inv (io_loop_observed tsc_end next_stats_tsc passes s)"
proof (induction passes arbitrary: s next_stats_tsc)
  case Nil
  then show ?case by simp
next
  case (Cons e es)
  show ?case
  proof (cases "poll_devs (map fst (g_devs s)) (pe_io e) s")
    case (Inl x)
    with Cons.prems show ?thesis by simp
  next
    case p: (Inr s1)
    from poll_devs_depth_inv[OF Cons.prems p] have i1: "depth_inv s1" by simp
    show ?thesis
    proof (cases "spdk_nvme_probe (pe_events e) (pe_probe_rc e) s1")
      case (Inl x)
      with p Cons.prems i1 show ?thesis by simp
    next
      case (Inr r)
      obtain rc s2 where r: "r = (rc, s2)" by (cases r)
      from spdk_nvme_probe_depth_inv[OF i1 Inr[unfolded r]] have i2: "depth_inv s2" .
      show ?thesis
      proof (cases "rc \<noteq> 0")
        case True
        with p Inr r Cons.prems i1 i2 show ?thesis by simp
      next
        case False
        show ?thesis
        proof (cases "sweep (map fst (g_devs s2)) s2")
          case (Inl x)
          with p Inr r False Cons.prems i1 i2 show ?thesis by simp
        next
          case sw: (Inr s3)
          from sweep_depth_inv[OF i2 sw] have i3: "depth_inv s3" .
          from Cons.IH[OF i3] Cons.IH[OF print_stats_depth_inv[OF i3]]
            p Inr r False sw Cons.prems i1 i2 i3
          show ?thesis by simp
        qed
      qed
    qed
  qed
qed

lemma io_loop_while_depth_inv:
  "depth_inv s \<Longrightarrow> io_loop_while tsc_end next_stats_tsc passes s = Some (Inr s') \<Longrightarrow> depth_inv s'"
proof (induction passes arbitrary: s next_stats_tsc)
  case Nil
  then show ?case by simp
next
  case (Cons e es)
  from Cons.prems(2) obtain s1 where p: "poll_devs (map fst (g_devs s)) (pe_io e) s = Inr s1"
    by (auto split: sum.splits)
  from poll_devs_depth_inv[OF Cons.prems(1) p] have i1: "depth_inv s1" by simp
  from Cons.prems(2) p obtain rc s2 where pr: "spdk_nvme_probe (pe_events e) (pe_probe_rc e) s1 = Inr (rc, s2)"
    by (auto split: sum.splits)
  from spdk_nvme_probe_depth_inv[OF i1 pr] have i2: "depth_inv s2" .
  show ?case
  proof (cases "rc \<noteq> 0")
    case True
    with Cons.prems(2) p pr i2 show ?thesis by auto
  next
    case False
    with Cons.prems(2) p pr obtain s3 where sw: "sweep (map fst (g_devs s2)) s2 = Inr s3"
      by (auto split: sum.splits)
    from sweep_depth_inv[OF i2 sw] have i3: "depth_inv s3" .
    from Cons.prems(2) p pr False sw Cons.IH[OF i3] Cons.IH[OF print_stats_depth_inv[OF i3]] i3
    show ?thesis by (auto split: if_splits)
  qed
qed

lemma depth_inv_empty: "g_devs s = [] \<Longrightarrow> inflight s = [] \<Longrightarrow> depth_inv s"
  by (simp add: depth_inv_def sync_inv_def synced_def)

lemma register_controllers_depth_inv:
  "depth_inv s \<Longrightarrow> register_controllers events rc s = Inr (rc', s') \<Longrightarrow> depth_inv s'"
  using spdk_nvme_probe_depth_inv[of "emit [Print Initializing_controllers] s" events rc _ _]
  by (auto simp: register_controllers_def split: sum.splits if_splits)

lemma io_loop_states_depth_inv:
  assumes "depth_inv s" shows "list_all depth_inv (io_loop_states env s)"
proof -
  let ?te = "le_ticks0 env + word_of_int (g_time_in_sec s) * g_tsc_rate s"
  have a: "list_all depth_inv (io_loop_observed ?te (le_ticks1 env) (le_passes env) s)"
    using assms by (rule io_loop_observed_depth_inv)
  have b: "list_all depth_inv
     (case io_loop_while ?te (le_ticks1 env) (le_passes env) s of
            None \<Rightarrow> []
          | Some (Inl x) \<Rightarrow> []
          | Some (Inr s1) \<Rightarrow> drain_all_observed (map fst (g_devs s1)) (le_drain env) s1)"
    using io_loop_while_depth_inv[OF assms] drain_all_observed_depth_inv
    by (auto split: option.splits sum.splits)
  from a b show ?thesis by (simp add: io_loop_states_def Let_def)
qed

lemma submit_single_io_reads:
  "submit_single_io p rc s = Inr s' \<Longrightarrow> reads s' = Suc (reads s)"
proof -
  assume r: "submit_single_io p rc s = Inr s'"
  then obtain dev t free where "deref s p = Some dev" "task_pool s = t # free"
    by (rule submit_single_io_cases)
  from submit_single_io_eq[OF this, of rc] r show ?thesis
    by (auto simp: reads_def read_call_def)
qed

lemma submit_io_reads:
  "submit_io p n rcs s = Inr s' \<Longrightarrow> reads s' = reads s + nat n"
proof (induction p n rcs s rule: submit_io.induct)
  case (1 p n rcs s)
  show ?case
  proof (cases "n > 0")
    case False
    with "1.prems" show ?thesis by (simp add: submit_io.simps[of p n])
  next
    case True
    let ?rc = "case rcs of [] \<Rightarrow> 0 | rc # _ \<Rightarrow> rc"
    from True "1.prems" obtain s1 where
      one: "submit_single_io p ?rc s = Inr s1" and rest: "submit_io p (n - 1) (tl rcs) s1 = Inr s'"
      by (subst (asm) submit_io.simps) (auto split: sum.splits)
    from "1.IH"[OF True one rest] submit_single_io_reads[OF one] True show ?thesis
      by (simp add: nat_diff_distrib')
  qed
qed

lemma poll_dev_burst:
  assumes "deref s p = Some dev" and "is_new dev" and "poll_dev p io s = Inr s'"
  shows "\<exists>s1. submit_io p g_queue_depth (fst io) s = Inr s1 \<and> reads s1 = reads s + nat g_queue_depth"
  using assms submit_io_reads[of p g_queue_depth "fst io" s]
  by (auto simp: poll_dev_def split: sum.splits)

text \<open>
  Claim C1. The program starts with no device and nothing in flight, and probes once
  before the loop. From the state in which \<open>io_loop\<close> is then entered, at every
  observation point of the loop, whatever the driver does, every registered device has
  \<open>0 \<le> current_queue_depth \<le> g_queue_depth\<close>. And the initial burst of a new device
  issues exactly \<open>g_queue_depth\<close> reads. The proof keeps \<open>depth_inv\<close>: the initial burst
  is issued only for a device with nothing outstanding, a refused read changes nothing,
  the driver completes only reads that are outstanding, and a completion takes one off
  before it puts at most one back.
\<close>

theorem io_loop_queue_depth_bounded:
  assumes "g_devs s0 = []" and "inflight s0 = []"
    and "register_controllers events rc s0 = Inr (rc', s)"
  shows "list_all depth_bounded (io_loop_states env (emit [Print Initialization_complete] s)) \<and>
         (\<forall>p io s1 s2 dev. deref s1 p = Some dev \<and> is_new dev \<and> poll_dev p io s1 = Inr s2 \<longrightarrow>
            (\<exists>s'. submit_io p g_queue_depth (fst io) s1 = Inr s' \<and>
                  reads s' = reads s1 + nat g_queue_depth))"
proof -
  from depth_inv_empty[OF assms(1,2)] have "depth_inv s0" .
  from register_controllers_depth_inv[OF this assms(3)]
  have "depth_inv (emit [Print Initialization_complete] s)" by simp
  from io_loop_states_depth_inv[OF this]
  have "list_all depth_bounded (io_loop_states env (emit [Print Initialization_complete] s))"
    by (auto simp: list_all_iff intro: depth_inv_bounded)
  then show ?thesis using poll_dev_burst by blast
qed

theorem io_loop_queue_depth_bounded_witness:
  "g_devs pool_world = [] \<and> inflight pool_world = [] \<and>
   register_controllers [Attach example_ctrlr True, Attach small_ctrlr True] 0 pool_world =
     Inr (0, probed_world) \<and>
   entry_world = emit [Print Initialization_complete] probed_world \<and>
   list_all depth_bounded (io_loop_states example_loop entry_world) \<and>
   map depths (io_loop_states example_loop entry_world) =
     [[(1, 0)], [(1, 3)], [(1, 3), (2, 0)], [(1, 3), (2, 0)], [(1, 3), (2, 0)],
      [(1, 3), (2, 4)], [(1, 3), (2, 4)], [(1, 3), (2, 4)], [(1, 3), (2, 4)],
      [(1, 0), (2, 4)], [(1, 0), (2, 4)], [(2, 4)], [(2, 4)], [(2, 4)], [(2, 4)],
      [(2, 4)], [(2, 0)], []] \<and>
   (\<exists>dev. deref entry_world 1 = Some dev \<and> is_new dev) \<and>
   (\<exists>s'. submit_io 1 g_queue_depth [0, 0, - 5, 0] entry_world = Inr s' \<and>
      reads s' = reads entry_world + 4)"
proof -
  have a: "g_devs pool_world = []" "inflight pool_world = []"
    by (simp_all add: pool_world_def start_def)
  have "case register_controllers [Attach example_ctrlr True, Attach small_ctrlr True] 0 pool_world of
          Inr (rc, s) \<Rightarrow> rc = 0 | Inl x \<Rightarrow> False"
    by code_simp
  then have b: "register_controllers [Attach example_ctrlr True, Attach small_ctrlr True] 0 pool_world =
      Inr (0, probed_world)"
    by (auto simp: probed_world_def probed_def split: sum.splits)
  have c: "map depths (io_loop_states example_loop entry_world) =
     [[(1, 0)], [(1, 3)], [(1, 3), (2, 0)], [(1, 3), (2, 0)], [(1, 3), (2, 0)],
      [(1, 3), (2, 4)], [(1, 3), (2, 4)], [(1, 3), (2, 4)], [(1, 3), (2, 4)],
      [(1, 0), (2, 4)], [(1, 0), (2, 4)], [(2, 4)], [(2, 4)], [(2, 4)], [(2, 4)],
      [(2, 4)], [(2, 0)], []]"
    by code_simp
  note T = io_loop_queue_depth_bounded[OF a b, of example_loop]
  have "case deref entry_world 1 of Some dev \<Rightarrow> is_new dev | None \<Rightarrow> False" by code_simp
  then obtain dev where d: "deref entry_world 1 = Some dev" "is_new dev"
    by (auto split: option.splits)
  have "case poll_dev 1 ([0, 0, - 5, 0], [0, 0]) entry_world of Inr s2 \<Rightarrow> True | Inl x \<Rightarrow> False"
    by code_simp
  then obtain s2 where p: "poll_dev 1 ([0, 0, - 5, 0], [0, 0]) entry_world = Inr s2"
    by (auto split: sum.splits)
  from T[THEN conjunct2, rule_format, of entry_world 1 dev "([0, 0, - 5, 0], [0, 0])" s2] d p
  have e: "\<exists>s'. submit_io 1 g_queue_depth [0, 0, - 5, 0] entry_world = Inr s' \<and>
      reads s' = reads entry_world + 4"
    by (simp add: g_queue_depth_def)
  from T[THEN conjunct1] a b c d e show ?thesis
    by (auto simp: entry_world_def)
qed

subsection \<open>Descriptors are freed with nothing outstanding\<close>

lemma world_of_simps [simp]: "world_of (Inl x) = snd x" "world_of (Inr s) = s"
  by (simp_all add: world_of_def split: prod.splits)

lemma probed_simps [simp]: "probed (Inl x) = snd x" "probed (Inr y) = snd y"
  by (simp_all add: probed_def split: prod.splits)

lemma idle_frees_emit [simp]: "idle_frees (emit cs s) = (idle_frees s \<and> list_all idle_free cs)"
  by (simp add: idle_frees_def)

lemma idle_frees_store [simp]: "idle_frees (store p d s) = idle_frees s"
  by (simp add: idle_frees_def)

lemma idle_frees_upd [simp]:
  "idle_frees (s\<lparr>task_pool := x\<rparr>) = idle_frees s"
  "idle_frees (s\<lparr>inflight := y\<rparr>) = idle_frees s"
  "idle_frees (s\<lparr>g_devs := z\<rparr>) = idle_frees s"
  by (simp_all add: idle_frees_def)

lemma idle_frees_after_completion [simp]: "idle_frees (after_completion t d s) = idle_frees s"
  by (simp add: idle_frees_def)

lemma submit_single_io_idle: "idle_frees s \<Longrightarrow> idle_frees (world_of (submit_single_io p rc s))"
  by (simp add: submit_single_io_def Let_def split: list.splits option.splits)

lemma task_complete_idle: "idle_frees s \<Longrightarrow> idle_frees (world_of (task_complete t rc s))"
proof (cases "deref s (task_dev t)")
  case None
  assume "idle_frees s"
  with None show ?thesis by (simp add: task_complete_def)
next
  case (Some d)
  assume "idle_frees s"
  then have "idle_frees (after_completion t d s)" by simp
  from submit_single_io_idle[OF this] \<open>idle_frees s\<close> show ?thesis
    by (simp add: task_complete_eq[OF Some])
qed

lemma qpair_process_completions_idle:
  "idle_frees s \<Longrightarrow> idle_frees (world_of (qpair_process_completions q batch s))"
proof (induction batch arbitrary: s)
  case Nil
  then show ?case by simp
next
  case (Cons rc rcs)
  show ?case
  proof (cases "find (\<lambda>(q', t). q' = q) (inflight s)")
    case None
    with Cons.prems show ?thesis by simp
  next
    case (Some x)
    obtain q' t where x: "x = (q', t)" by (cases x)
    let ?s0 = "s\<lparr>inflight := remove1 (q', t) (inflight s)\<rparr>"
    from Cons.prems have "idle_frees ?s0" by simp
    from task_complete_idle[OF this, of t rc] have
      i: "idle_frees (world_of (io_complete t rc ?s0))" by (simp add: io_complete_def)
    show ?thesis
    proof (cases "io_complete t rc ?s0")
      case (Inl e)
      with i Some x show ?thesis by simp
    next
      case (Inr s1)
      with i Cons.IH[of s1] Some x show ?thesis by simp
    qed
  qed
qed

lemma check_io_idle: "idle_frees s \<Longrightarrow> idle_frees (world_of (check_io p batch s))"
  using qpair_process_completions_idle by (simp add: check_io_def split: option.splits)

lemma submit_io_idle: "idle_frees s \<Longrightarrow> idle_frees (world_of (submit_io p n rcs s))"
proof (induction p n rcs s rule: submit_io.induct)
  case (1 p n rcs s)
  let ?rc = "case rcs of [] \<Rightarrow> 0 | rc # _ \<Rightarrow> rc"
  show ?case
  proof (cases "n > 0")
    case False
    with "1.prems" show ?thesis by (simp add: submit_io.simps[of p n])
  next
    case True
    from submit_single_io_idle[OF "1.prems", of p ?rc] have
      i: "idle_frees (world_of (submit_single_io p ?rc s))" .
    show ?thesis
    proof (cases "submit_single_io p ?rc s")
      case (Inl e)
      with i True show ?thesis by (simp add: submit_io.simps[of p n])
    next
      case (Inr s1)
      with i "1.IH"[OF True Inr] True show ?thesis by (simp add: submit_io.simps[of p n])
    qed
  qed
qed

lemma poll_dev_idle: "idle_frees s \<Longrightarrow> idle_frees (world_of (poll_dev p io s))"
proof -
  assume q: "idle_frees s"
  show ?thesis
  proof (cases "deref s p")
    case None
    with q show ?thesis by (simp add: poll_dev_def)
  next
    case (Some d)
    show ?thesis
    proof (cases "is_new d")
      case False
      with Some check_io_idle[OF q, of p "snd io"] show ?thesis by (simp add: poll_dev_def)
    next
      case True
      note i = submit_io_idle[OF q, of p g_queue_depth "fst io"]
      show ?thesis
      proof (cases "submit_io p g_queue_depth (fst io) s")
        case (Inl e)
        with i Some True show ?thesis by (simp add: poll_dev_def)
      next
        case (Inr s1)
        with i have q1: "idle_frees s1" by simp
        show ?thesis
        proof (cases "deref s1 p")
          case None
          with q1 Inr Some True show ?thesis by (simp add: poll_dev_def)
        next
          case d1: (Some d1)
          from q1 have "idle_frees (store p (d1\<lparr>is_new := False\<rparr>) s1)" by simp
          from check_io_idle[OF this, of p "snd io"] Inr Some True d1 show ?thesis
            by (simp add: poll_dev_def)
        qed
      qed
    qed
  qed
qed

lemma poll_devs_idle: "idle_frees s \<Longrightarrow> idle_frees (world_of (poll_devs ps ios s))"
proof (induction ps arbitrary: ios s)
  case Nil
  then show ?case by simp
next
  case (Cons p ps)
  let ?io = "case ios of [] \<Rightarrow> ([], []) | io # _ \<Rightarrow> io"
  note i = poll_dev_idle[OF Cons.prems, of p ?io]
  show ?case
  proof (cases "poll_dev p ?io s")
    case (Inl e)
    with i show ?thesis by simp
  next
    case (Inr s1)
    with i Cons.IH[of s1] show ?thesis by simp
  qed
qed

lemma new_dev_idle [simp]: "current_queue_depth (new_dev c) = 0"
  by (simp add: new_dev_def)

lemma register_dev_idle: "idle_frees s \<Longrightarrow> idle_frees (world_of (register_dev c ok s))"
  by (simp add: register_dev_def Let_def split: option.splits)

lemma remove_cb_idle: "idle_frees s \<Longrightarrow> idle_frees (remove_cb c s)"
  by (simp add: remove_cb_def split: option.splits)

lemma deliver_idle: "idle_frees s \<Longrightarrow> idle_frees (world_of (deliver e s))"
  using register_dev_idle remove_cb_idle
  by (cases e) (simp_all add: probe_cb_def attach_cb_def)

lemma spdk_nvme_probe_idle: "idle_frees s \<Longrightarrow> idle_frees (probed (spdk_nvme_probe events rc s))"
proof (induction events arbitrary: s)
  case Nil
  then show ?case by simp
next
  case (Cons e es)
  note i = deliver_idle[OF Cons.prems, of e]
  show ?case
  proof (cases "deliver e s")
    case (Inl x)
    with i show ?thesis by simp
  next
    case (Inr s1)
    with i Cons.IH[of s1] show ?thesis by simp
  qed
qed

lemma unregister_dev_idle:
  "idle_frees s \<Longrightarrow> (\<And>d. deref s p = Some d \<Longrightarrow> current_queue_depth d = 0) \<Longrightarrow>
   idle_frees (world_of (unregister_dev p s))"
  by (cases "deref s p") (simp_all add: unregister_dev_def Let_def)

lemma sweep_dev_idle: "idle_frees s \<Longrightarrow> idle_frees (world_of (sweep_dev p s))"
proof (cases "deref s p")
  case None
  assume "idle_frees s"
  with None show ?thesis by (simp add: sweep_dev_def)
next
  case (Some d)
  assume q: "idle_frees s"
  show ?thesis
  proof (cases "is_removed d \<and> current_queue_depth d = 0")
    case True
    with Some unregister_dev_idle[OF q, of p] show ?thesis by (simp add: sweep_dev_def)
  next
    case False
    with Some q show ?thesis by (auto simp: sweep_dev_def)
  qed
qed

lemma sweep_idle: "idle_frees s \<Longrightarrow> idle_frees (world_of (sweep ps s))"
proof (induction ps arbitrary: s)
  case Nil
  then show ?case by simp
next
  case (Cons p ps)
  note i = sweep_dev_idle[OF Cons.prems, of p]
  show ?case
  proof (cases "sweep_dev p s")
    case (Inl x)
    with i show ?thesis by simp
  next
    case (Inr s1)
    with i Cons.IH[of s1] show ?thesis by simp
  qed
qed

lemma print_stats_idle: "idle_frees s \<Longrightarrow> idle_frees (print_stats s)"
  by (simp add: print_stats_def list_all_iff case_prod_unfold)

lemma drain_io_while_idle:
  "idle_frees s \<Longrightarrow> drain_io_while p batches s = Some r \<Longrightarrow>
   idle_frees (world_of r) \<and> (\<forall>s'. r = Inr s' \<longrightarrow> (\<exists>d. deref s' p = Some d \<and> current_queue_depth d = 0))"
proof (induction p batches s rule: drain_io_while.induct)
  case (1 p batches s)
  show ?case
  proof (cases "deref s p")
    case None
    with "1.prems" show ?thesis by (subst (asm) drain_io_while.simps) auto
  next
    case (Some d)
    show ?thesis
    proof (cases "current_queue_depth d > 0")
      case False
      with "1.prems" Some show ?thesis
        by (subst (asm) drain_io_while.simps) (auto simp: word_neq_0_conv[symmetric])
    next
      case True
      with "1.prems"(2) Some obtain b bs where b: "batches = b # bs"
        by (subst (asm) drain_io_while.simps) (auto split: list.splits)
      note i = check_io_idle[OF "1.prems"(1), of p b]
      show ?thesis
      proof (cases "check_io p b s")
        case (Inl e)
        with "1.prems"(2) Some True b have "r = Inl e"
          by (subst (asm) drain_io_while.simps) simp
        with i Inl show ?thesis by simp
      next
        case (Inr s1)
        with "1.prems"(2) Some True b have r: "drain_io_while p bs s1 = Some r"
          by (subst (asm) drain_io_while.simps) simp
        from i Inr have "idle_frees s1" by simp
        from "1.IH"[OF Some True b Inr this r] show ?thesis .
      qed
    qed
  qed
qed

lemma drain_io_while_exit:
  "drain_io_while p batches s = Some (Inr s') \<Longrightarrow>
   \<exists>d. deref s' p = Some d \<and> current_queue_depth d = 0"
proof (induction p batches s rule: drain_io_while.induct)
  case (1 p batches s)
  from "1.prems" obtain d where d: "deref s p = Some d"
    by (subst (asm) drain_io_while.simps) (auto split: option.splits)
  show ?case
  proof (cases "current_queue_depth d > 0")
    case False
    with "1.prems" d show ?thesis
      by (subst (asm) drain_io_while.simps) (simp add: word_neq_0_conv[symmetric])
  next
    case True
    with "1.prems" d obtain b bs s1 where
      "batches = b # bs" "check_io p b s = Inr s1" "drain_io_while p bs s1 = Some (Inr s')"
      by (subst (asm) drain_io_while.simps) (auto split: list.splits sum.splits)
    with "1.IH"[OF d True] show ?thesis by blast
  qed
qed

lemma drain_io_exit:
  "drain_io p batches s = Some (Inr s') \<Longrightarrow>
   \<exists>d. deref s' p = Some d \<and> current_queue_depth d = 0"
  by (auto simp: drain_io_def split: option.splits dest: drain_io_while_exit)

lemma drain_io_idle:
  assumes "idle_frees s" and "drain_io p batches s = Some r"
  shows "idle_frees (world_of r) \<and>
         (\<forall>s'. r = Inr s' \<longrightarrow> (\<exists>d. deref s' p = Some d \<and> current_queue_depth d = 0))"
proof (cases "deref s p")
  case None
  with assms show ?thesis by (auto simp: drain_io_def)
next
  case (Some d)
  with assms(2) have w: "drain_io_while p batches (store p (d\<lparr>is_draining := True\<rparr>) s) = Some r"
    by (simp add: drain_io_def)
  from assms(1) have "idle_frees (store p (d\<lparr>is_draining := True\<rparr>) s)" by simp
  from drain_io_while_idle[OF this w] show ?thesis .
qed

lemma drain_all_idle:
  "idle_frees s \<Longrightarrow> drain_all ps bss s = Some r \<Longrightarrow> idle_frees (world_of r)"
proof (induction ps arbitrary: bss s)
  case Nil
  then show ?case by auto
next
  case (Cons p ps)
  let ?bs = "case bss of [] \<Rightarrow> [] | bs # _ \<Rightarrow> bs"
  from Cons.prems(2) obtain r1 where d: "drain_io p ?bs s = Some r1"
    by (auto split: option.splits)
  note i = drain_io_idle[OF Cons.prems(1) d]
  show ?case
  proof (cases r1)
    case (Inl x)
    with Cons.prems(2) d i show ?thesis by auto
  next
    case (Inr s1)
    with i obtain dv where q1: "idle_frees s1" and dv: "deref s1 p = Some dv" "current_queue_depth dv = 0"
      by auto
    from unregister_dev_idle[OF q1, of p] dv have u: "idle_frees (world_of (unregister_dev p s1))"
      by simp
    show ?thesis
    proof (cases "unregister_dev p s1")
      case (Inl x)
      with Cons.prems(2) d Inr u show ?thesis by auto
    next
      case u2: (Inr s2)
      with Cons.prems(2) d Inr have "drain_all ps (tl bss) s2 = Some r" by simp
      from Cons.IH[OF _ this] u u2 show ?thesis by simp
    qed
  qed
qed

lemma io_loop_while_idle:
  "idle_frees s \<Longrightarrow> io_loop_while tsc_end next_stats_tsc passes s = Some r \<Longrightarrow>
   idle_frees (world_of r)"
proof (induction passes arbitrary: s next_stats_tsc)
  case Nil
  then show ?case by simp
next
  case (Cons e es)
  note i1 = poll_devs_idle[OF Cons.prems(1), of "map fst (g_devs s)" "pe_io e"]
  show ?case
  proof (cases "poll_devs (map fst (g_devs s)) (pe_io e) s")
    case (Inl x)
    with Cons.prems(2) i1 show ?thesis by auto
  next
    case p: (Inr s1)
    with i1 have q1: "idle_frees s1" by simp
    note i2 = spdk_nvme_probe_idle[OF q1, of "pe_events e" "pe_probe_rc e"]
    show ?thesis
    proof (cases "spdk_nvme_probe (pe_events e) (pe_probe_rc e) s1")
      case (Inl x)
      with Cons.prems(2) p i2 show ?thesis by auto
    next
      case (Inr y)
      obtain rc s2 where y: "y = (rc, s2)" by (cases y)
      with i2 Inr have q2: "idle_frees s2" by simp
      show ?thesis
      proof (cases "rc \<noteq> 0")
        case True
        with Cons.prems(2) p Inr y q2 show ?thesis by auto
      next
        case False
        note i3 = sweep_idle[OF q2, of "map fst (g_devs s2)"]
        show ?thesis
        proof (cases "sweep (map fst (g_devs s2)) s2")
          case (Inl x)
          with Cons.prems(2) p Inr y False i3 show ?thesis by auto
        next
          case sw: (Inr s3)
          with i3 have q3: "idle_frees s3" by simp
          show ?thesis
          proof (cases "pe_now e > tsc_end")
            case True
            with Cons.prems(2) p Inr y False sw have "r = Inr s3" by simp
            with q3 show ?thesis by simp
          next
            case late: False
            show ?thesis
            proof (cases "pe_now e > next_stats_tsc")
              case True
              with Cons.prems(2) p Inr y False sw late have
                "io_loop_while tsc_end (next_stats_tsc + g_tsc_rate s3) es (print_stats s3) = Some r"
                by simp
              from Cons.IH[OF print_stats_idle[OF q3] this] show ?thesis .
            next
              case False
              with Cons.prems(2) p Inr y \<open>\<not> rc \<noteq> 0\<close> sw late have
                "io_loop_while tsc_end next_stats_tsc es s3 = Some r"
                by simp
              from Cons.IH[OF q3 this] show ?thesis .
            qed
          qed
        qed
      qed
    qed
  qed
qed

lemma io_loop_idle:
  assumes "idle_frees s" and "io_loop env s = Some r"
  shows "idle_frees (probed r)"
proof -
  let ?te = "le_ticks0 env + word_of_int (g_time_in_sec s) * g_tsc_rate s"
  from assms(2) obtain r1 where w: "io_loop_while ?te (le_ticks1 env) (le_passes env) s = Some r1"
    by (auto simp: io_loop_def Let_def split: option.splits)
  note i = io_loop_while_idle[OF assms(1) w]
  show ?thesis
  proof (cases r1)
    case (Inl x)
    with assms(2) w i show ?thesis by (auto simp: io_loop_def Let_def)
  next
    case (Inr s1)
    with assms(2) w obtain r2 where d: "drain_all (map fst (g_devs s1)) (le_drain env) s1 = Some r2"
      by (auto simp: io_loop_def Let_def split: option.splits)
    from i Inr have "idle_frees s1" by simp
    note j = drain_all_idle[OF this d]
    from assms(2) w Inr d j show ?thesis
      by (cases r2) (auto simp: io_loop_def Let_def)
  qed
qed

lemma sweep_dev_acts:
  assumes "sweep_dev p s = Inr s'" and "calls s' \<noteq> calls s"
  shows "\<exists>d. deref s p = Some d \<and> is_removed d \<and> current_queue_depth d = 0 \<and>
             unregister_dev p s = Inr s'"
  using assms by (auto simp: sweep_dev_def split: option.splits if_splits)

lemma unregister_dev_calls:
  assumes "deref s p = Some d"
  shows "\<exists>s'. unregister_dev p s = Inr s' \<and>
     calls s' = calls s @ [Print (Unregister_dev (name d)), Ctrlr_free_io_qpair (qpair d),
                           Nvme_detach (ctrlr d), Free p d] \<and>
     deref s' p = None"
  using assms by (simp add: unregister_dev_eq deref_def map_of_filter_neq)

text \<open>
  Claim C4. In every run of \<open>io_loop\<close>, whether it returns or the process exits on the
  way, every descriptor that has been freed had \<open>current_queue_depth = 0\<close> when it was
  freed. \<open>unregister_dev\<close> frees the queue pair, detaches the controller, unlinks the
  descriptor and frees it, in that order. The removal sweep calls it only for a device
  with \<open>is_removed\<close> set and \<open>current_queue_depth = 0\<close>, and \<open>drain_io\<close>, which the
  last loop calls before each \<open>unregister_dev\<close>, returns only when
  \<open>current_queue_depth\<close> of its device is 0.
\<close>

theorem unregister_only_when_idle:
  "(idle_frees s \<and> io_loop env s = Some r \<longrightarrow> idle_frees (probed r)) \<and>
   (deref s p = Some d \<longrightarrow>
      (\<exists>s'. unregister_dev p s = Inr s' \<and>
         calls s' = calls s @ [Print (Unregister_dev (name d)), Ctrlr_free_io_qpair (qpair d),
                               Nvme_detach (ctrlr d), Free p d] \<and>
         deref s' p = None)) \<and>
   (sweep_dev p s = Inr s1 \<and> calls s1 \<noteq> calls s \<longrightarrow>
      (\<exists>dev. deref s p = Some dev \<and> is_removed dev \<and> current_queue_depth dev = 0 \<and>
             unregister_dev p s = Inr s1)) \<and>
   (drain_io p batches s = Some (Inr s2) \<longrightarrow>
      (\<exists>dev. deref s2 p = Some dev \<and> current_queue_depth dev = 0))"
proof (intro conjI impI)
  assume "idle_frees s \<and> io_loop env s = Some r"
  then show "idle_frees (probed r)" using io_loop_idle by blast
next
  assume "deref s p = Some d"
  then show "\<exists>s'. unregister_dev p s = Inr s' \<and>
         calls s' = calls s @ [Print (Unregister_dev (name d)), Ctrlr_free_io_qpair (qpair d),
                               Nvme_detach (ctrlr d), Free p d] \<and>
         deref s' p = None"
    by (rule unregister_dev_calls)
next
  assume "sweep_dev p s = Inr s1 \<and> calls s1 \<noteq> calls s"
  then show "\<exists>dev. deref s p = Some dev \<and> is_removed dev \<and> current_queue_depth dev = 0 \<and>
             unregister_dev p s = Inr s1"
    using sweep_dev_acts by blast
next
  assume "drain_io p batches s = Some (Inr s2)"
  then show "\<exists>dev. deref s2 p = Some dev \<and> current_queue_depth dev = 0"
    by (rule drain_io_exit)
qed

theorem unregister_only_when_idle_witness:
  "idle_frees entry_world \<and>
   map_option (\<lambda>r. (exit_code r, idle_frees (probed r), frees (calls (probed r))))
     (io_loop example_loop entry_world) = Some (Some 0, True, [(2, 0), (1, 0), (2, 0)]) \<and>
   (\<exists>d. deref removed_idle_world 1 = Some d \<and> is_removed d \<and> current_queue_depth d = 0) \<and>
   (\<exists>s1. sweep_dev 1 removed_idle_world = Inr s1 \<and> calls s1 \<noteq> calls removed_idle_world \<and>
      deref s1 1 = None \<and> unregister_dev 1 removed_idle_world = Inr s1) \<and>
   (\<exists>d. deref busy_world 1 = Some d \<and> current_queue_depth d = 1) \<and>
   (\<exists>s2 d. drain_io 1 [[], [0]] busy_world = Some (Inr s2) \<and> deref s2 1 = Some d \<and>
      current_queue_depth d = 0)"
proof -
  have a: "idle_frees entry_world" by code_simp
  have "case io_loop example_loop entry_world of Some r \<Rightarrow>
          exit_code r = Some 0 \<and> frees (calls (probed r)) = [(2, 0), (1, 0), (2, 0)] | None \<Rightarrow> False"
    by code_simp
  then obtain r where r: "io_loop example_loop entry_world = Some r" "exit_code r = Some 0"
    "frees (calls (probed r)) = [(2, 0), (1, 0), (2, 0)]"
    by (auto split: option.splits)
  note T = unregister_only_when_idle
  from T[where s = entry_world and env = example_loop and r = r, THEN conjunct1] a r(1) have b: "idle_frees (probed r)" by simp
  have "case deref removed_idle_world 1 of Some d \<Rightarrow> is_removed d \<and> current_queue_depth d = 0 | None \<Rightarrow> False"
    by code_simp
  then obtain d where d: "deref removed_idle_world 1 = Some d" "is_removed d" "current_queue_depth d = 0"
    by (auto split: option.splits)
  from T[where s = removed_idle_world and p = 1 and d = d, THEN conjunct2, THEN conjunct1] d(1) obtain s1 where
    u: "unregister_dev 1 removed_idle_world = Inr s1" "deref s1 1 = None"
       "calls s1 \<noteq> calls removed_idle_world"
    by auto
  from u(1) d have sw: "sweep_dev 1 removed_idle_world = Inr s1" by (simp add: sweep_dev_def)
  from T[where s = removed_idle_world and p = 1 and ?s1.0 = s1, THEN conjunct2, THEN conjunct2, THEN conjunct1] sw u(3)
  have c: "\<exists>s1. sweep_dev 1 removed_idle_world = Inr s1 \<and> calls s1 \<noteq> calls removed_idle_world \<and>
      deref s1 1 = None \<and> unregister_dev 1 removed_idle_world = Inr s1"
    using u by blast
  have "case deref busy_world 1 of Some d \<Rightarrow> current_queue_depth d = 1 | None \<Rightarrow> False"
    by code_simp
  then have e: "\<exists>d. deref busy_world 1 = Some d \<and> current_queue_depth d = 1"
    by (auto split: option.splits)
  have "case drain_io 1 [[], [0]] busy_world of Some (Inr s2) \<Rightarrow> True | _ \<Rightarrow> False"
    by code_simp
  then obtain s2 where s2: "drain_io 1 [[], [0]] busy_world = Some (Inr s2)"
    by (auto split: option.splits sum.splits)
  from T[where s = busy_world and p = 1 and batches = "[[], [0]]" and ?s2.0 = s2, THEN conjunct2, THEN conjunct2, THEN conjunct2] s2
  have f: "\<exists>s2 d. drain_io 1 [[], [0]] busy_world = Some (Inr s2) \<and> deref s2 1 = Some d \<and>
      current_queue_depth d = 0"
    by blast
  from a r b d c e f show ?thesis by auto
qed

subsection \<open>What io_loop returns\<close>

lemma submit_single_io_addrs:
  "submit_single_io p rc s = Inr s' \<Longrightarrow> map fst (g_devs s') = map fst (g_devs s)"
  by (auto simp: submit_single_io_def Let_def split: list.splits option.splits if_splits)

lemma task_complete_addrs:
  "task_complete t rc s = Inr s' \<Longrightarrow> map fst (g_devs s') = map fst (g_devs s)"
proof -
  assume r: "task_complete t rc s = Inr s'"
  then obtain d where d: "deref s (task_dev t) = Some d"
    by (auto simp: task_complete_def split: option.splits)
  show ?thesis
  proof (cases "resubmits d")
    case True
    with r d have "submit_single_io (task_dev t) rc (after_completion t d s) = Inr s'"
      by (simp add: task_complete_eq)
    from submit_single_io_addrs[OF this] show ?thesis by simp
  next
    case False
    with r d show ?thesis by (auto simp: task_complete_eq)
  qed
qed

lemma qpair_process_completions_addrs:
  "qpair_process_completions q batch s = Inr s' \<Longrightarrow> map fst (g_devs s') = map fst (g_devs s)"
proof (induction batch arbitrary: s)
  case Nil
  then show ?case by simp
next
  case (Cons rc rcs)
  show ?case
  proof (cases "find (\<lambda>(q', t). q' = q) (inflight s)")
    case None
    with Cons.prems show ?thesis by simp
  next
    case (Some x)
    obtain q' t where x: "x = (q', t)" by (cases x)
    from Cons.prems Some x obtain s1 where
      c: "task_complete t rc (s\<lparr>inflight := remove1 (q', t) (inflight s)\<rparr>) = Inr s1" and
      r: "qpair_process_completions q rcs s1 = Inr s'"
      by (auto simp: io_complete_def split: sum.splits)
    from task_complete_addrs[OF c] Cons.IH[OF r] show ?thesis by simp
  qed
qed

lemma check_io_addrs: "check_io p batch s = Inr s' \<Longrightarrow> map fst (g_devs s') = map fst (g_devs s)"
  by (auto simp: check_io_def split: option.splits dest: qpair_process_completions_addrs)

lemma drain_io_while_addrs:
  "drain_io_while p batches s = Some (Inr s') \<Longrightarrow> map fst (g_devs s') = map fst (g_devs s)"
proof (induction p batches s rule: drain_io_while.induct)
  case (1 p batches s)
  from "1.prems" obtain d where d: "deref s p = Some d"
    by (subst (asm) drain_io_while.simps) (auto split: option.splits)
  show ?case
  proof (cases "current_queue_depth d > 0")
    case False
    with "1.prems" d show ?thesis by (subst (asm) drain_io_while.simps) simp
  next
    case True
    with "1.prems" d obtain b bs s1 where
      b: "batches = b # bs" and c: "check_io p b s = Inr s1" and r: "drain_io_while p bs s1 = Some (Inr s')"
      by (subst (asm) drain_io_while.simps) (auto split: list.splits sum.splits)
    from "1.IH"[OF d True b c r] check_io_addrs[OF c] show ?thesis by simp
  qed
qed

lemma drain_io_addrs:
  "drain_io p batches s = Some (Inr s') \<Longrightarrow> map fst (g_devs s') = map fst (g_devs s)"
  by (auto simp: drain_io_def split: option.splits dest!: drain_io_while_addrs)

lemma unregister_dev_addrs:
  "unregister_dev p s = Inr s' \<Longrightarrow> map fst (g_devs s') = filter (\<lambda>q. q \<noteq> p) (map fst (g_devs s))"
  by (auto simp: unregister_dev_def Let_def filter_map comp_def case_prod_unfold split: option.splits)

lemma drain_all_addrs:
  "drain_all ps bss s = Some (Inr s') \<Longrightarrow>
   map fst (g_devs s') = filter (\<lambda>q. q \<notin> set ps) (map fst (g_devs s))"
proof (induction ps arbitrary: bss s)
  case Nil
  then show ?case by simp
next
  case (Cons p ps)
  from Cons.prems obtain s1 s2 where
    d: "drain_io p (case bss of [] \<Rightarrow> [] | bs # _ \<Rightarrow> bs) s = Some (Inr s1)" and
    u: "unregister_dev p s1 = Inr s2" and r: "drain_all ps (tl bss) s2 = Some (Inr s')"
    by (auto split: option.splits sum.splits)
  from Cons.IH[OF r] unregister_dev_addrs[OF u] drain_io_addrs[OF d]
  show ?case by (auto intro: filter_cong)
qed

lemma io_loop_while_probe_failure:
  assumes "poll_devs (map fst (g_devs s)) (pe_io e) s = Inr s1"
    and "spdk_nvme_probe (pe_events e) (pe_probe_rc e) s1 = Inr (prc, s2)" and "prc \<noteq> 0"
  shows "io_loop_while tsc_end next_stats_tsc (e # es) s = Some (Inr (emit [Print Probe_failed] s2))"
  using assms by simp

lemma freed_append [simp]: "freed (xs @ ys) = freed xs @ freed ys"
  by (induction xs rule: freed.induct) simp_all

lemma submit_single_io_log:
  assumes "submit_single_io p rc s = Inr s'"
  shows "\<exists>cs. calls s' = calls s @ cs \<and> freed cs = []"
proof -
  from assms obtain dev t free where d: "deref s p = Some dev" "task_pool s = t # free"
    by (rule submit_single_io_cases)
  from assms submit_single_io_eq[OF d, of rc]
  have "s' = (store p (submitted dev rc) s)
          \<lparr>task_pool := (if rc = 0 then free else t\<lparr>task_dev := p\<rparr> # free),
           inflight := (if rc = 0 then inflight s @ [(qpair dev, t\<lparr>task_dev := p\<rparr>)] else inflight s),
           calls := calls s @ read_call dev t # (if rc = 0 then [] else [Print Starting_io_failed])\<rparr>"
    by simp
  then have "calls s' = calls s @ read_call dev t # (if rc = 0 then [] else [Print Starting_io_failed])"
    by simp
  then show ?thesis by (simp add: read_call_def)
qed

lemma submit_single_io_flag:
  assumes "submit_single_io p rc s = Inr s'" and "deref s q = Some d"
  shows "\<exists>d'. deref s' q = Some d' \<and> is_draining d' = is_draining d"
proof -
  from assms(1) obtain dev t free where d: "deref s p = Some dev" "task_pool s = t # free"
    by (rule submit_single_io_cases)
  from assms(1) submit_single_io_eq[OF d, of rc]
  have s': "s' = (store p (submitted dev rc) s)
          \<lparr>task_pool := (if rc = 0 then free else t\<lparr>task_dev := p\<rparr> # free),
           inflight := (if rc = 0 then inflight s @ [(qpair dev, t\<lparr>task_dev := p\<rparr>)] else inflight s),
           calls := calls s @ read_call dev t # (if rc = 0 then [] else [Print Starting_io_failed])\<rparr>"
    by simp
  have g: "g_devs s' = g_devs (store p (submitted dev rc) s)" unfolding s' by simp
  have dr: "deref s' q = (if q = p then Some (submitted dev rc) else deref s q)"
    using d by (simp add: deref_cong[OF g] deref_store)
  show ?thesis
  proof (cases "q = p")
    case True
    with dr d assms(2) show ?thesis by (simp add: submitted_def)
  next
    case False
    with dr assms(2) show ?thesis by simp
  qed
qed

lemma task_complete_log:
  assumes "task_complete t rc s = Inr s'"
  shows "\<exists>cs. calls s' = calls s @ cs \<and> freed cs = []"
proof -
  from assms obtain d where d: "deref s (task_dev t) = Some d"
    by (auto simp: task_complete_def split: option.splits)
  show ?thesis
  proof (cases "resubmits d")
    case True
    with assms d have "submit_single_io (task_dev t) rc (after_completion t d s) = Inr s'"
      by (simp add: task_complete_eq)
    from submit_single_io_log[OF this] show ?thesis by simp
  next
    case False
    with assms d have "s' = after_completion t d s" by (simp add: task_complete_eq)
    then show ?thesis by simp
  qed
qed

lemma task_complete_flag:
  assumes "task_complete t rc s = Inr s'" and "deref s q = Some d0"
  shows "\<exists>d'. deref s' q = Some d' \<and> is_draining d' = is_draining d0"
proof -
  from assms(1) obtain d where d: "deref s (task_dev t) = Some d"
    by (auto simp: task_complete_def split: option.splits)
  have a: "\<exists>d'. deref (after_completion t d s) q = Some d' \<and> is_draining d' = is_draining d0"
    using d assms(2) by (auto simp: deref_after_completion completed_def)
  show ?thesis
  proof (cases "resubmits d")
    case True
    with assms d have r: "submit_single_io (task_dev t) rc (after_completion t d s) = Inr s'"
      by (simp add: task_complete_eq)
    from a obtain d1 where d1: "deref (after_completion t d s) q = Some d1" "is_draining d1 = is_draining d0"
      by blast
    from submit_single_io_flag[OF r d1(1)] d1(2) show ?thesis by auto
  next
    case False
    with assms d have "s' = after_completion t d s" by (simp add: task_complete_eq)
    with a show ?thesis by simp
  qed
qed

lemma qpair_process_completions_log:
  "qpair_process_completions q batch s = Inr s' \<Longrightarrow>
   (\<exists>cs. calls s' = calls s @ cs \<and> freed cs = []) \<and>
   (\<forall>p d. deref s p = Some d \<longrightarrow> (\<exists>d'. deref s' p = Some d' \<and> is_draining d' = is_draining d))"
proof (induction batch arbitrary: s)
  case Nil
  then show ?case by simp
next
  case (Cons rc rcs)
  show ?case
  proof (cases "find (\<lambda>(q', t). q' = q) (inflight s)")
    case None
    with Cons.prems show ?thesis by simp
  next
    case (Some x)
    obtain q' t where x: "x = (q', t)" by (cases x)
    let ?s0 = "s\<lparr>inflight := remove1 (q', t) (inflight s)\<rparr>"
    from Cons.prems Some x obtain s1 where
      c: "task_complete t rc ?s0 = Inr s1" and
      r: "qpair_process_completions q rcs s1 = Inr s'"
      by (auto simp: io_complete_def split: sum.splits)
    from task_complete_log[OF c] obtain cs1 where cs1: "calls s1 = calls s @ cs1" "freed cs1 = []"
      by auto
    from Cons.IH[OF r] obtain cs2 where cs2: "calls s' = calls s1 @ cs2" "freed cs2 = []"
      and fl: "\<And>p d. deref s1 p = Some d \<Longrightarrow> \<exists>d'. deref s' p = Some d' \<and> is_draining d' = is_draining d"
      by blast
    have l: "\<exists>cs. calls s' = calls s @ cs \<and> freed cs = []"
      using cs1 cs2 by simp
    have f: "\<exists>d'. deref s' p = Some d' \<and> is_draining d' = is_draining d" if "deref s p = Some d" for p d
    proof -
      from that have "deref ?s0 p = Some d" by simp
      from task_complete_flag[OF c this] obtain d1 where "deref s1 p = Some d1" "is_draining d1 = is_draining d"
        by blast
      with fl[of p d1] show ?thesis by auto
    qed
    from l f show ?thesis by blast
  qed
qed

lemma drain_io_while_log:
  "drain_io_while p batches s = Some (Inr s') \<Longrightarrow>
   (\<exists>cs. calls s' = calls s @ cs \<and> freed cs = []) \<and>
   (\<forall>q d. deref s q = Some d \<longrightarrow> (\<exists>d'. deref s' q = Some d' \<and> is_draining d' = is_draining d))"
proof (induction p batches s rule: drain_io_while.induct)
  case (1 p batches s)
  from "1.prems" obtain d where d: "deref s p = Some d"
    by (subst (asm) drain_io_while.simps) (auto split: option.splits)
  show ?case
  proof (cases "current_queue_depth d > 0")
    case False
    with "1.prems" d have "s' = s" by (subst (asm) drain_io_while.simps) simp
    then show ?thesis by simp
  next
    case True
    with "1.prems" d obtain b bs s1 where
      b: "batches = b # bs" and c: "check_io p b s = Inr s1" and r: "drain_io_while p bs s1 = Some (Inr s')"
      by (subst (asm) drain_io_while.simps) (auto split: list.splits sum.splits)
    from c d have "qpair_process_completions (qpair d) b s = Inr s1" by (simp add: check_io_def)
    note A = qpair_process_completions_log[OF this]
    note B = "1.IH"[OF d True b c r]
    from A obtain cs1 where cs1: "calls s1 = calls s @ cs1" "freed cs1 = []" by blast
    from B obtain cs2 where cs2: "calls s' = calls s1 @ cs2" "freed cs2 = []" by blast
    have l: "\<exists>cs. calls s' = calls s @ cs \<and> freed cs = []" using cs1 cs2 by simp
    have f: "\<exists>d'. deref s' q = Some d' \<and> is_draining d' = is_draining d0" if "deref s q = Some d0" for q d0
    proof -
      from A that obtain d1 where "deref s1 q = Some d1" "is_draining d1 = is_draining d0" by blast
      with B show ?thesis by (metis)
    qed
    from l f show ?thesis by blast
  qed
qed

lemma drain_io_log:
  assumes "drain_io p batches s = Some (Inr s')"
  shows "(\<exists>cs. calls s' = calls s @ cs \<and> freed cs = []) \<and>
         (\<exists>d. deref s' p = Some d \<and> is_draining d \<and> current_queue_depth d = 0)"
proof -
  from assms obtain d where d: "deref s p = Some d"
    and w: "drain_io_while p batches (store p (d\<lparr>is_draining := True\<rparr>) s) = Some (Inr s')"
    by (auto simp: drain_io_def split: option.splits)
  note A = drain_io_while_log[OF w]
  from d have "deref (store p (d\<lparr>is_draining := True\<rparr>) s) p = Some (d\<lparr>is_draining := True\<rparr>)" by simp
  with A obtain d' where d': "deref s' p = Some d'" "is_draining d'" by force
  from drain_io_while_exit[OF w] d' have "current_queue_depth d' = 0" by auto
  with A d' show ?thesis by simp
qed

lemma drain_all_log:
  "drain_all ps bss s = Some (Inr s') \<Longrightarrow>
   \<exists>cs. calls s' = calls s @ cs \<and> map fst (freed cs) = ps \<and>
        list_all (\<lambda>(p, dev). is_draining dev \<and> current_queue_depth dev = 0) (freed cs)"
proof (induction ps arbitrary: bss s)
  case Nil
  then show ?case by simp
next
  case (Cons p ps)
  from Cons.prems obtain s1 s2 where
    d: "drain_io p (case bss of [] \<Rightarrow> [] | bs # _ \<Rightarrow> bs) s = Some (Inr s1)" and
    u: "unregister_dev p s1 = Inr s2" and r: "drain_all ps (tl bss) s2 = Some (Inr s')"
    by (auto split: option.splits sum.splits)
  from drain_io_log[OF d] obtain cs1 dev where
    cs1: "calls s1 = calls s @ cs1" "freed cs1 = []" and
    dev: "deref s1 p = Some dev" "is_draining dev" "current_queue_depth dev = 0"
    by blast
  from u unregister_dev_eq[OF dev(1)]
  have "s2 = emit [Print (Unregister_dev (name dev)), Ctrlr_free_io_qpair (qpair dev),
       Nvme_detach (ctrlr dev), Free p dev] (s1\<lparr>g_devs := filter (\<lambda>(q, e). q \<noteq> p) (g_devs s1)\<rparr>)"
    by simp
  then have c2: "calls s2 = calls s1 @ [Print (Unregister_dev (name dev)), Ctrlr_free_io_qpair (qpair dev),
       Nvme_detach (ctrlr dev), Free p dev]"
    by simp
  from Cons.IH[OF r] obtain cs3 where
    cs3: "calls s' = calls s2 @ cs3" "map fst (freed cs3) = ps"
      "list_all (\<lambda>(p, dev). is_draining dev \<and> current_queue_depth dev = 0) (freed cs3)"
    by blast
  let ?cs = "cs1 @ [Print (Unregister_dev (name dev)), Ctrlr_free_io_qpair (qpair dev),
       Nvme_detach (ctrlr dev), Free p dev] @ cs3"
  have "calls s' = calls s @ ?cs" using cs1 c2 cs3 by simp
  moreover have "freed ?cs = (p, dev) # freed cs3" using cs1 by simp
  ultimately show ?case using cs3 dev by (intro exI[of _ ?cs]) simp
qed

lemma drain_all_depth_inv:
  "depth_inv s \<Longrightarrow> drain_all ps bss s = Some (Inr s') \<Longrightarrow> depth_inv s'"
proof (induction ps arbitrary: bss s)
  case Nil
  then show ?case by simp
next
  case (Cons p ps)
  from Cons.prems(2) obtain s1 s2 where
    d: "drain_io p (case bss of [] \<Rightarrow> [] | bs # _ \<Rightarrow> bs) s = Some (Inr s1)" and
    u: "unregister_dev p s1 = Inr s2" and r: "drain_all ps (tl bss) s2 = Some (Inr s')"
    by (auto split: option.splits sum.splits)
  from drain_io_depth_inv[OF Cons.prems(1) d] obtain dev where
    i: "depth_inv s1" and dev: "deref s1 p = Some dev" "current_queue_depth dev = 0"
    by blast
  from unregister_dev_depth_inv[OF i dev u] have "depth_inv s2" .
  from Cons.IH[OF this r] show ?case .
qed

lemma depth_inv_no_devs: "depth_inv s \<Longrightarrow> g_devs s = [] \<Longrightarrow> inflight s = []"
  by (cases "inflight s") (auto simp: depth_inv_def sync_inv_def synced_def)

lemma io_loop_return:
  assumes inv: "depth_inv s" and idle: "idle_frees s" and run: "io_loop env s = Some (Inr (rc, s'))"
  shows "rc = 0 \<and> g_devs s' = [] \<and> inflight s' = [] \<and> idle_frees s' \<and>
         (\<exists>s1. io_loop_while (le_ticks0 env + word_of_int (g_time_in_sec s) * g_tsc_rate s)
                  (le_ticks1 env) (le_passes env) s = Some (Inr s1) \<and>
               drained_and_unregistered s1 s')"
proof -
  let ?te = "le_ticks0 env + word_of_int (g_time_in_sec s) * g_tsc_rate s"
  from run obtain s1 where
    w: "io_loop_while ?te (le_ticks1 env) (le_passes env) s = Some (Inr s1)" and
    d: "drain_all (map fst (g_devs s1)) (le_drain env) s1 = Some (Inr s')" and rc: "rc = 0"
    by (auto simp: io_loop_def Let_def split: option.splits sum.splits)
  from drain_all_addrs[OF d] have g: "g_devs s' = []" by simp
  from io_loop_while_depth_inv[OF inv w] have "depth_inv s1" .
  from drain_all_depth_inv[OF this d] have "depth_inv s'" .
  from depth_inv_no_devs[OF this g] have fl: "inflight s' = []" .
  from io_loop_idle[OF idle run] have i: "idle_frees s'" by simp
  from drain_all_log[OF d] obtain cs where
    cs: "calls s' = calls s1 @ cs" "map fst (freed cs) = map fst (g_devs s1)"
      "list_all (\<lambda>(p, dev). is_draining dev \<and> current_queue_depth dev = 0) (freed cs)"
    by blast
  then have "drained_and_unregistered s1 s'" by (simp add: drained_and_unregistered_def)
  with rc g fl i w show ?thesis by blast
qed

lemma rte_mempool_create_Inr:
  "(\<And>i. zmalloc i \<noteq> 0) \<Longrightarrow>
   rte_mempool_create n k zmalloc s =
     Inr (map (\<lambda>i. \<lparr>task_dev = 0, task_buf = zmalloc i\<rparr>) [k..<k + n])"
proof (induction n arbitrary: k)
  case 0
  then show ?case by simp
next
  case (Suc n)
  have "[k..<k + Suc n] = k # [Suc k..<Suc k + n]" by (simp del: upt_Suc add: upt_conv_Cons)
  with Suc.IH[OF Suc.prems, of "Suc k"] Suc.prems[of k]
  show ?case by (simp add: task_ctor_def del: upt_Suc)
qed

lemma rte_mempool_create_prefix:
  assumes "\<And>i. zmalloc i \<noteq> 0" and "m \<le> n"
  shows "\<exists>rest. \<forall>s. rte_mempool_create n 0 zmalloc s =
           Inr (map (\<lambda>i. \<lparr>task_dev = 0, task_buf = zmalloc i\<rparr>) [0..<m] @ rest)"
proof -
  from assms(2) obtain d where n: "n = m + d" using le_Suc_ex by blast
  have "[0..<0 + n] = [0..<m] @ [m..<m + d]"
    unfolding n using upt_add_eq_append[of 0 m d] by simp
  with rte_mempool_create_Inr[OF assms(1), of n 0] show ?thesis by simp
qed

lemma rte_mempool_create_exit:
  "zmalloc k = 0 \<Longrightarrow>
   rte_mempool_create (Suc n) k zmalloc s = Inl (Exit 1, emit [Print Task_buf_malloc_failed] s)"
  by (simp add: task_ctor_def)

lemma main_task_ctor_failure:
  assumes "parse_args (me_argv0 env) (getopt ''t:'' [] (me_args env)) start = (0, s1)"
    and "0 \<le> me_eal_init env" and "me_zmalloc env 0 = 0"
  shows "main env = Some (Inl (Exit 1, emit [Print Task_buf_malloc_failed] s1))"
proof -
  have n: "Suc 8191 = (8192 :: nat)" by simp
  from assms(3) have "rte_mempool_create (Suc 8191) 0 (me_zmalloc env) s1 =
          Inl (Exit 1, emit [Print Task_buf_malloc_failed] s1)"
    by (rule rte_mempool_create_exit)
  then have "rte_mempool_create 8192 0 (me_zmalloc env) s1 =
          Inl (Exit 1, emit [Print Task_buf_malloc_failed] s1)"
    unfolding n .
  with assms(1,2) show ?thesis by (simp add: main_def)
qed

lemma parse_args_while_frame:
  "parse_args_while argv0 opts s = Inr s1 \<Longrightarrow> g_devs s1 = g_devs s \<and> inflight s1 = inflight s"
  by (induction argv0 opts s rule: parse_args_while.induct) (auto split: if_splits)

lemma parse_args_frame:
  assumes "parse_args argv0 opts s = (0, s')"
  shows "g_devs s' = g_devs s \<and> inflight s' = inflight s \<and> calls s' = calls s"
proof (cases "parse_args_while argv0 opts (s\<lparr>g_time_in_sec := 0\<rparr>)")
  case (Inl r)
  obtain rc s1 where r: "r = (rc, s1)" by (cases r)
  from parse_args_while_Inl[OF Inl[unfolded r]] have "rc = 1" by simp
  with assms Inl r show ?thesis by (simp add: parse_args_def)
next
  case (Inr s1)
  from parse_args_while_frame[OF Inr] parse_args_while_Inr[OF Inr]
  have f: "g_devs s1 = g_devs s" "inflight s1 = inflight s" "calls s1 = calls s" by simp_all
  show ?thesis
  proof (cases "g_time_in_sec s1 = 0")
    case True
    with assms Inr show ?thesis by (simp add: parse_args_def)
  next
    case False
    with assms Inr have "s' = s1" by (simp add: parse_args_def)
    with f show ?thesis by simp
  qed
qed

lemma main_entry:
  assumes p: "parse_args (me_argv0 env) (getopt ''t:'' [] (me_args env)) start = (0, s1)"
    and e: "0 \<le> me_eal_init env"
    and m: "rte_mempool_create 8192 0 (me_zmalloc env) s1 = Inr pool"
    and r: "register_controllers (me_events env) (me_probe_rc env)
              (s1\<lparr>task_pool := pool, g_tsc_rate := me_ticks_hz env\<rparr>) = Inr (0, s3)"
  shows "main env = io_loop (me_loop env) (emit [Print Initialization_complete] s3) \<and>
         depth_inv (emit [Print Initialization_complete] s3) \<and>
         idle_frees (emit [Print Initialization_complete] s3)"
proof -
  let ?s2 = "s1\<lparr>task_pool := pool, g_tsc_rate := me_ticks_hz env\<rparr>"
  from p e m r have a: "main env = io_loop (me_loop env) (emit [Print Initialization_complete] s3)"
    by (simp add: main_def)
  from parse_args_frame[OF p] have f: "g_devs s1 = []" "inflight s1 = []" "calls s1 = []"
    by (simp_all add: start_def)
  then have "depth_inv ?s2" by (intro depth_inv_empty) simp_all
  from register_controllers_depth_inv[OF this r] have b: "depth_inv (emit [Print Initialization_complete] s3)"
    by simp
  from f have i: "idle_frees (emit [Print Initializing_controllers] ?s2)" by (simp add: idle_frees_def)
  from r have "spdk_nvme_probe (me_events env) (me_probe_rc env) (emit [Print Initializing_controllers] ?s2)
      = Inr (0, s3)"
    by (auto simp: register_controllers_def split: sum.splits if_splits)
  with spdk_nvme_probe_idle[OF i, of "me_events env" "me_probe_rc env"]
  have c: "idle_frees (emit [Print Initialization_complete] s3)" by simp
  from a b c show ?thesis by simp
qed

lemma own_qpairs_iff:
  assumes "distinct (map fst (g_devs s))"
  shows "own_qpairs s \<longleftrightarrow>
     (\<forall>q t p d. (q, t) \<in> set (inflight s) \<longrightarrow> deref s p = Some d \<longrightarrow>
        (q = qpair d) = (task_dev t = p))"
  using assms by (fastforce simp: own_qpairs_def list_all_iff deref_def)

lemma own_qpairsD:
  assumes "own_qpairs s" and "distinct (map fst (g_devs s))"
    and "(q, t) \<in> set (inflight s)" and "deref s p = Some d"
  shows "(q = qpair d) = (task_dev t = p)"
  using assms own_qpairs_iff[of s] by blast

lemma draining_completion:
  assumes inv: "depth_inv s" and own: "own_qpairs s" and d: "deref s p = Some d"
    and dr: "is_draining d"
    and f: "find (\<lambda>(q', t). q' = qpair d) (inflight s) = Some (q', t)"
  shows "\<exists>s1. io_complete t rc (s\<lparr>inflight := remove1 (q', t) (inflight s)\<rparr>) = Inr s1 \<and>
              depth_inv s1 \<and> own_qpairs s1 \<and> deref s1 p = Some (completed d) \<and>
              (\<forall>p2. p2 \<noteq> p \<longrightarrow> deref s1 p2 = deref s p2) \<and>
              0 < unat (current_queue_depth d)"
proof -
  note S = depth_invD[OF inv]
  note D = sync_invD[OF S(1)]
  from find_Some_mem[OF f] have mem: "(q', t) \<in> set (inflight s)" and q: "q' = qpair d" by auto
  from own_qpairsD[OF own D(1) mem d] q have td: "task_dev t = p" by simp
  let ?s0 = "s\<lparr>inflight := remove1 (q', t) (inflight s)\<rparr>"
  let ?s1 = "after_completion t d ?s0"
  have d0: "deref ?s0 (task_dev t) = Some d" using d td by simp
  from dr have nr: "\<not> resubmits d" by (simp add: resubmits_def)
  have eq: "io_complete t rc ?s0 = Inr ?s1"
    using task_complete_eq[OF d0, of rc] nr by (simp add: io_complete_def)
  from io_complete_depth_inv[OF inv mem, of rc] obtain sx where
    sx: "io_complete t rc ?s0 = Inr sx" "depth_inv sx" by blast
  with eq have i1: "depth_inv ?s1" by simp
  have dr1: "deref ?s1 p2 = (if p2 = p then Some (completed d) else deref s p2)" for p2
    using d td by (simp add: deref_after_completion)
  have fl1: "inflight ?s1 = remove1 (q', t) (inflight s)" by simp
  have dist1: "distinct (map fst (g_devs ?s1))" using sync_invD(1)[OF depth_invD(1)[OF i1]] .
  have own1: "own_qpairs ?s1"
    unfolding own_qpairs_iff[OF dist1]
  proof (intro allI impI)
    fix q2 t2 p2 d2
    assume a: "(q2, t2) \<in> set (inflight ?s1)" and b: "deref ?s1 p2 = Some d2"
    from a fl1 have m2: "(q2, t2) \<in> set (inflight s)" using set_remove1_subset by fastforce
    show "(q2 = qpair d2) = (task_dev t2 = p2)"
    proof (cases "p2 = p")
      case True
      with b dr1 have "d2 = completed d" by simp
      then have "qpair d2 = qpair d" by (simp add: completed_def)
      with own_qpairsD[OF own D(1) m2 d] True show ?thesis by simp
    next
      case False
      with b dr1 have "deref s p2 = Some d2" by simp
      from own_qpairsD[OF own D(1) m2 this] show ?thesis .
    qed
  qed
  from outstanding_pos[OF mem] td D(2)[OF d] have pos: "0 < unat (current_queue_depth d)" by simp
  from eq i1 own1 dr1 pos show ?thesis by simp
qed

lemma draining_completions:
  "depth_inv s \<Longrightarrow> own_qpairs s \<Longrightarrow> deref s p = Some d \<Longrightarrow> is_draining d \<Longrightarrow>
   \<exists>s' d'. qpair_process_completions (qpair d) batch s = Inr s' \<and> depth_inv s' \<and> own_qpairs s' \<and>
      deref s' p = Some d' \<and> is_draining d' \<and> qpair d' = qpair d \<and>
      unat (current_queue_depth d') = unat (current_queue_depth d) - length batch \<and>
      (\<forall>p2. p2 \<noteq> p \<longrightarrow> deref s' p2 = deref s p2)"
proof (induction batch arbitrary: s d)
  case Nil
  then show ?case by simp
next
  case (Cons rc rcs)
  note S = depth_invD[OF Cons.prems(1)]
  note D = sync_invD[OF S(1)]
  show ?case
  proof (cases "find (\<lambda>(q', t). q' = qpair d) (inflight s)")
    case None
    have "outstanding (inflight s) p = 0"
    proof (rule ccontr)
      assume "outstanding (inflight s) p \<noteq> 0"
      then obtain q t where m: "(q, t) \<in> set (inflight s)" "task_dev t = p"
        by (auto simp: outstanding_0_iff)
      from own_qpairsD[OF Cons.prems(2) D(1) m(1) Cons.prems(3)] m(2) have "q = qpair d" by simp
      with m(1) None show False by (auto simp: find_None_iff)
    qed
    with D(2)[OF Cons.prems(3)] have "unat (current_queue_depth d) = 0" by simp
    with None Cons.prems show ?thesis by simp
  next
    case (Some x)
    obtain q' t where x: "x = (q', t)" by (cases x)
    from draining_completion[OF Cons.prems(1,2,3,4) Some[unfolded x], of rc] obtain s1 where
      c: "io_complete t rc (s\<lparr>inflight := remove1 (q', t) (inflight s)\<rparr>) = Inr s1" and
      i1: "depth_inv s1" and o1: "own_qpairs s1" and d1: "deref s1 p = Some (completed d)" and
      oth: "\<And>p2. p2 \<noteq> p \<Longrightarrow> deref s1 p2 = deref s p2" and
      pos: "0 < unat (current_queue_depth d)"
      by blast
    have dr1: "is_draining (completed d)" and q1: "qpair (completed d) = qpair d"
      and c1: "unat (current_queue_depth (completed d)) = unat (current_queue_depth d) - 1"
      using Cons.prems(4) pos by (simp_all add: completed_def unat_dec_pos)
    from Cons.IH[OF i1 o1 d1 dr1] q1 obtain s' d' where
      r: "qpair_process_completions (qpair d) rcs s1 = Inr s'" and
      P: "depth_inv s'" "own_qpairs s'" "deref s' p = Some d'" "is_draining d'" "qpair d' = qpair d"
         "unat (current_queue_depth d') = unat (current_queue_depth (completed d)) - length rcs" and
      oth': "\<And>p2. p2 \<noteq> p \<Longrightarrow> deref s' p2 = deref s1 p2"
      by auto
    from Some x c r have e: "qpair_process_completions (qpair d) (rc # rcs) s = Inr s'" by simp
    from P(6) c1 have n: "unat (current_queue_depth d') = unat (current_queue_depth d) - length (rc # rcs)"
      by simp
    from e P(1-5) n oth oth' show ?thesis by auto
  qed
qed

lemma drain_io_while_returns:
  "depth_inv s \<Longrightarrow> own_qpairs s \<Longrightarrow> deref s p = Some d \<Longrightarrow> is_draining d \<Longrightarrow>
   unat (current_queue_depth d) \<le> length (concat batches) \<Longrightarrow>
   \<exists>s'. drain_io_while p batches s = Some (Inr s') \<and> depth_inv s' \<and> own_qpairs s' \<and>
        (\<forall>p2. p2 \<noteq> p \<longrightarrow> deref s' p2 = deref s p2)"
proof (induction batches arbitrary: s d)
  case Nil
  then have "\<not> current_queue_depth d > 0" by (simp add: word_less_nat_alt)
  with Nil show ?case by (subst drain_io_while.simps) simp
next
  case (Cons b bs)
  show ?case
  proof (cases "current_queue_depth d > 0")
    case False
    with Cons.prems show ?thesis by (subst drain_io_while.simps) simp
  next
    case True
    from draining_completions[OF Cons.prems(1,2,3,4), of b] obtain s1 d1 where
      c: "qpair_process_completions (qpair d) b s = Inr s1" and
      P: "depth_inv s1" "own_qpairs s1" "deref s1 p = Some d1" "is_draining d1" and
      n: "unat (current_queue_depth d1) = unat (current_queue_depth d) - length b" and
      oth: "\<And>p2. p2 \<noteq> p \<Longrightarrow> deref s1 p2 = deref s p2"
      by blast
    from n Cons.prems(5) have "unat (current_queue_depth d1) \<le> length (concat bs)" by simp
    from Cons.IH[OF P this] obtain s' where
      r: "drain_io_while p bs s1 = Some (Inr s')" and Q: "depth_inv s'" "own_qpairs s'" and
      oth': "\<And>p2. p2 \<noteq> p \<Longrightarrow> deref s' p2 = deref s1 p2"
      by blast
    from c Cons.prems(3) have "check_io p b s = Inr s1" by (simp add: check_io_def)
    with True Cons.prems(3) r have "drain_io_while p (b # bs) s = Some (Inr s')"
      by (subst drain_io_while.simps) simp
    with Q oth oth' show ?thesis by simp
  qed
qed

lemma drain_io_returns:
  assumes inv: "depth_inv s" and own: "own_qpairs s" and d: "deref s p = Some d"
    and en: "unat (current_queue_depth d) \<le> length (concat batches)"
  shows "\<exists>s'. drain_io p batches s = Some (Inr s') \<and> depth_inv s' \<and> own_qpairs s' \<and>
              (\<forall>p2. p2 \<noteq> p \<longrightarrow> deref s' p2 = deref s p2)"
proof -
  let ?d = "d\<lparr>is_draining := True\<rparr>"
  let ?s0 = "store p ?d s"
  note D = sync_invD[OF depth_invD(1)[OF inv]]
  have i0: "depth_inv ?s0" by (rule store_flag_depth_inv[OF inv d]) simp_all
  have dr0: "deref ?s0 q = (if q = p then Some ?d else deref s q)" for q
    using d by (simp add: deref_store)
  have dist0: "distinct (map fst (g_devs ?s0))" using D(1) by simp
  have own0: "own_qpairs ?s0"
    unfolding own_qpairs_iff[OF dist0]
  proof (intro allI impI)
    fix q2 t2 p2 d2
    assume a: "(q2, t2) \<in> set (inflight ?s0)" and b: "deref ?s0 p2 = Some d2"
    from a have m2: "(q2, t2) \<in> set (inflight s)" by simp
    show "(q2 = qpair d2) = (task_dev t2 = p2)"
    proof (cases "p2 = p")
      case True
      with b dr0 have "qpair d2 = qpair d" by auto
      with own_qpairsD[OF own D(1) m2 d] True show ?thesis by simp
    next
      case False
      with b dr0 have "deref s p2 = Some d2" by simp
      from own_qpairsD[OF own D(1) m2 this] show ?thesis .
    qed
  qed
  have "deref ?s0 p = Some ?d" "is_draining ?d" "unat (current_queue_depth ?d) \<le> length (concat batches)"
    using dr0 en by simp_all
  from drain_io_while_returns[OF i0 own0 this] obtain s' where
    r: "drain_io_while p batches ?s0 = Some (Inr s')" and Q: "depth_inv s'" "own_qpairs s'" and
    oth: "\<And>p2. p2 \<noteq> p \<Longrightarrow> deref s' p2 = deref ?s0 p2"
    by blast
  from r d have "drain_io p batches s = Some (Inr s')" by (simp add: drain_io_def)
  with Q oth dr0 show ?thesis by simp
qed

lemma unregister_dev_own_qpairs:
  assumes "own_qpairs s" and "unregister_dev p s = Inr s'"
  shows "own_qpairs s' \<and> (\<forall>q. q \<noteq> p \<longrightarrow> deref s' q = deref s q)"
proof -
  from assms(2) obtain d where d: "deref s p = Some d"
    by (auto simp: unregister_dev_def split: option.splits)
  from assms(2) unregister_dev_eq[OF d]
  have s': "s' = emit [Print (Unregister_dev (name d)), Ctrlr_free_io_qpair (qpair d),
       Nvme_detach (ctrlr d), Free p d] (s\<lparr>g_devs := filter (\<lambda>(q, e). q \<noteq> p) (g_devs s)\<rparr>)"
    by simp
  have g: "g_devs s' = filter (\<lambda>(q, e). q \<noteq> p) (g_devs s)" and fl: "inflight s' = inflight s"
    unfolding s' by simp_all
  from assms(1) have "own_qpairs s'" by (auto simp: own_qpairs_def list_all_iff g fl)
  moreover have "deref s' q = deref s q" if "q \<noteq> p" for q
    using that by (simp add: deref_def g map_of_filter_neq)
  ultimately show ?thesis by simp
qed

lemma enough_cong:
  "(\<And>p. p \<in> set ps \<Longrightarrow> deref s' p = deref s p) \<Longrightarrow> enough s' ps bss = enough s ps bss"
  by (induction ps arbitrary: bss) simp_all

lemma drain_all_returns:
  "depth_inv s \<Longrightarrow> own_qpairs s \<Longrightarrow> distinct ps \<Longrightarrow> enough s ps bss \<Longrightarrow>
   \<exists>s'. drain_all ps bss s = Some (Inr s')"
proof (induction ps arbitrary: bss s)
  case Nil
  then show ?case by simp
next
  case (Cons p ps)
  let ?bs = "case bss of [] \<Rightarrow> [] | bs # _ \<Rightarrow> bs"
  from Cons.prems(4) obtain d where d: "deref s p = Some d"
    and en: "unat (current_queue_depth d) \<le> length (concat ?bs)" and rest: "enough s ps (tl bss)"
    by (auto split: option.splits)
  from drain_io_returns[OF Cons.prems(1,2) d en] obtain s1 where
    r: "drain_io p ?bs s = Some (Inr s1)" and P: "depth_inv s1" "own_qpairs s1" and
    oth: "\<And>p2. p2 \<noteq> p \<Longrightarrow> deref s1 p2 = deref s p2"
    by blast
  from drain_io_exit[OF r] obtain d1 where d1: "deref s1 p = Some d1" "current_queue_depth d1 = 0"
    by blast
  from unregister_dev_eq[OF d1(1)] obtain s2 where u: "unregister_dev p s1 = Inr s2" by simp
  from unregister_dev_depth_inv[OF P(1) d1 u] have i2: "depth_inv s2" .
  from unregister_dev_own_qpairs[OF P(2) u] have o2: "own_qpairs s2"
    and oth2: "\<And>q. q \<noteq> p \<Longrightarrow> deref s2 q = deref s1 q" by simp_all
  from Cons.prems(3) have np: "p \<notin> set ps" and dist: "distinct ps" by simp_all
  have "enough s2 ps (tl bss) = enough s ps (tl bss)"
  proof (rule enough_cong)
    fix q assume "q \<in> set ps"
    with np have "q \<noteq> p" by auto
    with oth oth2 show "deref s2 q = deref s q" by simp
  qed
  with rest have e2: "enough s2 ps (tl bss)" by simp
  from Cons.IH[OF i2 o2 dist e2] obtain s' where "drain_all ps (tl bss) s2 = Some (Inr s')" by blast
  with r u show ?case by simp
qed

lemma io_loop_returns:
  assumes inv: "depth_inv s"
    and w: "io_loop_while (le_ticks0 env + word_of_int (g_time_in_sec s) * g_tsc_rate s)
              (le_ticks1 env) (le_passes env) s = Some (Inr s1)"
    and own: "own_qpairs s1" and en: "enough s1 (map fst (g_devs s1)) (le_drain env)"
  shows "\<exists>s'. io_loop env s = Some (Inr (0, s'))"
proof -
  from io_loop_while_depth_inv[OF inv w] have i1: "depth_inv s1" .
  from sync_invD(1)[OF depth_invD(1)[OF i1]] have "distinct (map fst (g_devs s1))" .
  from drain_all_returns[OF i1 own this en] obtain s' where
    "drain_all (map fst (g_devs s1)) (le_drain env) s1 = Some (Inr s')" by blast
  with w show ?thesis by (simp add: io_loop_def Let_def)
qed

text \<open>
  Claim C10 as stated does not hold: the exit code is not 0 "regardless of how the loop
  terminated". \<open>main\<close> parses its arguments, builds the pool, registers a controller,
  prints that the initialization is complete and enters \<open>io_loop\<close>; a controller is then
  attached during the first pass, \<open>calloc\<close> fails in \<open>register_dev\<close>, and the process ends
  in \<open>exit(1)\<close>. And when the loop has ended on a failed probe while a device has reads
  outstanding and no completion arrives any more, \<open>drain_io\<close> does not end and \<open>io_loop\<close>
  does not return.
\<close>

theorem main_exits_1_after_loop_entered:
  "map_option exit_code (main calloc_failure_env) = Some (Some 1) \<and>
   map_option (\<lambda>r. Print Initialization_complete \<in> set (calls (probed r))) (main calloc_failure_env)
     = Some True \<and>
   main no_completions_env = None"
proof -
  let ?f = "\<lambda>env rest. probed (register_controllers (me_events env) (me_probe_rc env)
      (snd (parse_args (me_argv0 env) (getopt ''t:'' [] (me_args env)) start)
         \<lparr>task_pool := map (\<lambda>i. \<lparr>task_dev = 0, task_buf = me_zmalloc env i\<rparr>) [0..<10] @ rest,
          g_tsc_rate := me_ticks_hz env\<rparr>))"
  have run: "\<exists>rest. main env = io_loop (me_loop env) (emit [Print Initialization_complete] (?f env rest))"
    if z: "\<And>i. me_zmalloc env i \<noteq> 0"
      and p: "fst (parse_args (me_argv0 env) (getopt ''t:'' [] (me_args env)) start) = 0"
      and e: "0 \<le> me_eal_init env"
      and r: "\<And>rest. case register_controllers (me_events env) (me_probe_rc env)
          (snd (parse_args (me_argv0 env) (getopt ''t:'' [] (me_args env)) start)
             \<lparr>task_pool := map (\<lambda>i. \<lparr>task_dev = 0, task_buf = me_zmalloc env i\<rparr>) [0..<10] @ rest,
              g_tsc_rate := me_ticks_hz env\<rparr>) of
            Inr (rc, s) \<Rightarrow> rc = 0 | Inl x \<Rightarrow> False"
    for env
  proof -
    let ?m1 = "snd (parse_args (me_argv0 env) (getopt ''t:'' [] (me_args env)) start)"
    from p have p': "parse_args (me_argv0 env) (getopt ''t:'' [] (me_args env)) start = (0, ?m1)"
      by (metis prod.collapse)
    from rte_mempool_create_prefix[where zmalloc = "me_zmalloc env" and m = 10 and n = 8192, OF z]
    obtain rest where
      pool: "rte_mempool_create 8192 0 (me_zmalloc env) ?m1 =
               Inr (map (\<lambda>i. \<lparr>task_dev = 0, task_buf = me_zmalloc env i\<rparr>) [0..<10] @ rest)"
      by force
    from r[of rest] have rg: "register_controllers (me_events env) (me_probe_rc env)
        (?m1\<lparr>task_pool := map (\<lambda>i. \<lparr>task_dev = 0, task_buf = me_zmalloc env i\<rparr>) [0..<10] @ rest,
              g_tsc_rate := me_ticks_hz env\<rparr>) = Inr (0, ?f env rest)"
      by (auto split: sum.splits)
    from main_entry[OF p' e pool rg] show ?thesis by blast
  qed
  have "\<exists>rest. main calloc_failure_env = io_loop (me_loop calloc_failure_env)
      (emit [Print Initialization_complete] (?f calloc_failure_env rest))"
  proof (rule run)
    show "me_zmalloc calloc_failure_env i \<noteq> 0" for i
      by (simp add: calloc_failure_env_def example_main_def)
    show "fst (parse_args (me_argv0 calloc_failure_env) (getopt ''t:'' [] (me_args calloc_failure_env)) start) = 0"
      by code_simp
    show "0 \<le> me_eal_init calloc_failure_env" by (simp add: calloc_failure_env_def example_main_def)
    show "case register_controllers (me_events calloc_failure_env) (me_probe_rc calloc_failure_env)
          (snd (parse_args (me_argv0 calloc_failure_env) (getopt ''t:'' [] (me_args calloc_failure_env)) start)
             \<lparr>task_pool := map (\<lambda>i. \<lparr>task_dev = 0, task_buf = me_zmalloc calloc_failure_env i\<rparr>) [0..<10] @ rest,
              g_tsc_rate := me_ticks_hz calloc_failure_env\<rparr>) of
            Inr (rc, s) \<Rightarrow> rc = 0 | Inl x \<Rightarrow> False" for rest
      by code_simp
  qed
  then obtain rest where m: "main calloc_failure_env = io_loop (me_loop calloc_failure_env)
      (emit [Print Initialization_complete] (?f calloc_failure_env rest))" ..
  have "case io_loop (me_loop calloc_failure_env)
      (emit [Print Initialization_complete] (?f calloc_failure_env rest)) of
        Some r \<Rightarrow> exit_code r = Some 1 \<and> Print Initialization_complete \<in> set (calls (probed r))
      | None \<Rightarrow> False"
    by code_simp
  with m have a: "map_option exit_code (main calloc_failure_env) = Some (Some 1)"
    "map_option (\<lambda>r. Print Initialization_complete \<in> set (calls (probed r))) (main calloc_failure_env)
       = Some True"
    by (auto split: option.splits)
  have "\<exists>rest. main no_completions_env = io_loop (me_loop no_completions_env)
      (emit [Print Initialization_complete] (?f no_completions_env rest))"
  proof (rule run)
    show "me_zmalloc no_completions_env i \<noteq> 0" for i
      by (simp add: no_completions_env_def example_main_def)
    show "fst (parse_args (me_argv0 no_completions_env) (getopt ''t:'' [] (me_args no_completions_env)) start) = 0"
      by code_simp
    show "0 \<le> me_eal_init no_completions_env" by (simp add: no_completions_env_def example_main_def)
    show "case register_controllers (me_events no_completions_env) (me_probe_rc no_completions_env)
          (snd (parse_args (me_argv0 no_completions_env) (getopt ''t:'' [] (me_args no_completions_env)) start)
             \<lparr>task_pool := map (\<lambda>i. \<lparr>task_dev = 0, task_buf = me_zmalloc no_completions_env i\<rparr>) [0..<10] @ rest,
              g_tsc_rate := me_ticks_hz no_completions_env\<rparr>) of
            Inr (rc, s) \<Rightarrow> rc = 0 | Inl x \<Rightarrow> False" for rest
      by code_simp
  qed
  then obtain rest' where m': "main no_completions_env = io_loop (me_loop no_completions_env)
      (emit [Print Initialization_complete] (?f no_completions_env rest'))" ..
  have "io_loop (me_loop no_completions_env)
      (emit [Print Initialization_complete] (?f no_completions_env rest')) = None"
    by code_simp
  with m' have b: "main no_completions_env = None" by simp
  from a b show ?thesis by simp
qed

text \<open>
  Claim C10, amended. A run of \<open>io_loop\<close> that starts from a state in which the counters
  agree with the driver and that returns, returns 0, so the exit code is 0; at that
  moment the registry is empty and nothing is in flight, every \<open>free\<close> of the log was of
  an idle descriptor, and what the log has gained since the \<open>while\<close> loop ended frees
  exactly the devices that were left, in list order, each with \<open>is_draining\<close> set and
  \<open>current_queue_depth = 0\<close>. A probe that fails in a pass ends the \<open>while\<close> loop at
  once, whatever passes would follow, with the message printed, and the devices are
  then drained and unregistered as after the time has run out. \<open>io_loop\<close> does return 0
  once the \<open>while\<close> loop has ended, provided the reads in flight on the queue pair of
  each device that is left are the reads of that device and the driver delivers at
  least as many completions to the device as it has reads outstanding. Once
  \<open>parse_args\<close>, \<open>rte_eal_init\<close>, the construction of the pool and \<open>register_controllers\<close>
  have succeeded, \<open>main\<close> returns what \<open>io_loop\<close> returns, from such a state.
  (\<open>exit(1)\<close> inside the loop, on a failed \<open>calloc\<close> or an empty pool, is not a return of
  \<open>io_loop\<close>, and the exit code is then 1.)
\<close>

theorem io_loop_drains_and_returns_zero:
  "(depth_inv s \<and> idle_frees s \<and> io_loop env s = Some (Inr (rc, s')) \<longrightarrow>
      rc = 0 \<and> exit_code (Inr (rc, s')) = Some 0 \<and>
      g_devs s' = [] \<and> inflight s' = [] \<and> idle_frees s' \<and>
      (\<exists>s1. io_loop_while (le_ticks0 env + word_of_int (g_time_in_sec s) * g_tsc_rate s)
               (le_ticks1 env) (le_passes env) s = Some (Inr s1) \<and>
            drained_and_unregistered s1 s')) \<and>
   (poll_devs (map fst (g_devs s)) (pe_io e) s = Inr sa \<and>
    spdk_nvme_probe (pe_events e) (pe_probe_rc e) sa = Inr (prc, sb) \<and> prc \<noteq> 0 \<longrightarrow>
      io_loop_while tsc_end next_stats_tsc (e # es) s = Some (Inr (emit [Print Probe_failed] sb))) \<and>
   (depth_inv s \<and>
    io_loop_while (le_ticks0 env + word_of_int (g_time_in_sec s) * g_tsc_rate s)
      (le_ticks1 env) (le_passes env) s = Some (Inr sd) \<and>
    own_qpairs sd \<and> enough sd (map fst (g_devs sd)) (le_drain env) \<longrightarrow>
      (\<exists>sr. io_loop env s = Some (Inr (0, sr)))) \<and>
   (parse_args (me_argv0 menv) (getopt ''t:'' [] (me_args menv)) start = (0, m1) \<and>
    0 \<le> me_eal_init menv \<and>
    rte_mempool_create 8192 0 (me_zmalloc menv) m1 = Inr pool \<and>
    register_controllers (me_events menv) (me_probe_rc menv)
      (m1\<lparr>task_pool := pool, g_tsc_rate := me_ticks_hz menv\<rparr>) = Inr (0, m3) \<longrightarrow>
      main menv = io_loop (me_loop menv) (emit [Print Initialization_complete] m3) \<and>
      depth_inv (emit [Print Initialization_complete] m3) \<and>
      idle_frees (emit [Print Initialization_complete] m3))"
proof (intro conjI impI)
  assume a: "depth_inv s \<and> idle_frees s \<and> io_loop env s = Some (Inr (rc, s'))"
  from io_loop_return[of s env rc s'] a
  have r: "rc = 0" "g_devs s' = []" "inflight s' = []" "idle_frees s'"
    "\<exists>s1. io_loop_while (le_ticks0 env + word_of_int (g_time_in_sec s) * g_tsc_rate s)
               (le_ticks1 env) (le_passes env) s = Some (Inr s1) \<and>
            drained_and_unregistered s1 s'"
    by simp_all
  from r(1) show "rc = 0" .
  from r(1) show "exit_code (Inr (rc, s')) = Some 0" by simp
  from r(2) show "g_devs s' = []" .
  from r(3) show "inflight s' = []" .
  from r(4) show "idle_frees s'" .
  from r(5) show "\<exists>s1. io_loop_while (le_ticks0 env + word_of_int (g_time_in_sec s) * g_tsc_rate s)
               (le_ticks1 env) (le_passes env) s = Some (Inr s1) \<and>
            drained_and_unregistered s1 s'" .
next
  assume "poll_devs (map fst (g_devs s)) (pe_io e) s = Inr sa \<and>
    spdk_nvme_probe (pe_events e) (pe_probe_rc e) sa = Inr (prc, sb) \<and> prc \<noteq> 0"
  with io_loop_while_probe_failure[of s e sa prc sb tsc_end next_stats_tsc es]
  show "io_loop_while tsc_end next_stats_tsc (e # es) s = Some (Inr (emit [Print Probe_failed] sb))"
    by blast
next
  assume "depth_inv s \<and>
    io_loop_while (le_ticks0 env + word_of_int (g_time_in_sec s) * g_tsc_rate s)
      (le_ticks1 env) (le_passes env) s = Some (Inr sd) \<and>
    own_qpairs sd \<and> enough sd (map fst (g_devs sd)) (le_drain env)"
  with io_loop_returns[of s env sd] show "\<exists>sr. io_loop env s = Some (Inr (0, sr))" by blast
next
  assume a: "parse_args (me_argv0 menv) (getopt ''t:'' [] (me_args menv)) start = (0, m1) \<and>
    0 \<le> me_eal_init menv \<and>
    rte_mempool_create 8192 0 (me_zmalloc menv) m1 = Inr pool \<and>
    register_controllers (me_events menv) (me_probe_rc menv)
      (m1\<lparr>task_pool := pool, g_tsc_rate := me_ticks_hz menv\<rparr>) = Inr (0, m3)"
  from main_entry[of menv m1 pool m3] a
  have m: "main menv = io_loop (me_loop menv) (emit [Print Initialization_complete] m3)"
    "depth_inv (emit [Print Initialization_complete] m3)"
    "idle_frees (emit [Print Initialization_complete] m3)"
    by blast+
  from m(1) show "main menv = io_loop (me_loop menv) (emit [Print Initialization_complete] m3)" .
  from m(2) show "depth_inv (emit [Print Initialization_complete] m3)" .
  from m(3) show "idle_frees (emit [Print Initialization_complete] m3)" .
qed

theorem io_loop_drains_and_returns_zero_witness:
  "(\<exists>s' s1. main example_env = Some (Inr (0, s')) \<and> exit_code (Inr (0, s')) = Some 0 \<and>
      g_devs s' = [] \<and> inflight s' = [] \<and> idle_frees s' \<and>
      drained_and_unregistered s1 s' \<and> depths s1 = [(2, 4)] \<and>
      last (calls s1) = Print Probe_failed) \<and>
   map_option (\<lambda>r. last (calls (world_of r))) (io_loop_while 1000 0 [failing_pass] entry_world)
     = Some (Print Probe_failed)"
proof -
  note T = io_loop_drains_and_returns_zero
  let ?m1 = "snd (parse_args (me_argv0 example_env) (getopt ''t:'' [] (me_args example_env)) start)"
  from rte_mempool_create_prefix[where zmalloc = "me_zmalloc example_env" and m = 10 and n = 8192]
  obtain rest where
    pool: "rte_mempool_create 8192 0 (me_zmalloc example_env) ?m1 =
             Inr (map (\<lambda>i. \<lparr>task_dev = 0, task_buf = me_zmalloc example_env i\<rparr>) [0..<10] @ rest)"
    by (force simp: example_env_def)
  let ?pool = "map (\<lambda>i. \<lparr>task_dev = 0, task_buf = me_zmalloc example_env i\<rparr>) [0..<10] @ rest"
  let ?m3 = "probed (register_controllers (me_events example_env) (me_probe_rc example_env)
      (?m1\<lparr>task_pool := ?pool, g_tsc_rate := me_ticks_hz example_env\<rparr>))"
  let ?s0 = "emit [Print Initialization_complete] ?m3"
  let ?env = "me_loop example_env"
  let ?te = "le_ticks0 ?env + word_of_int (g_time_in_sec ?s0) * g_tsc_rate ?s0"
  have "fst (parse_args (me_argv0 example_env) (getopt ''t:'' [] (me_args example_env)) start) = 0"
    by code_simp
  then have p: "parse_args (me_argv0 example_env) (getopt ''t:'' [] (me_args example_env)) start = (0, ?m1)"
    by (metis prod.collapse)
  have e: "0 \<le> me_eal_init example_env" by (simp add: example_env_def)
  have "case register_controllers (me_events example_env) (me_probe_rc example_env)
      (?m1\<lparr>task_pool := ?pool, g_tsc_rate := me_ticks_hz example_env\<rparr>) of
        Inr (rc, s) \<Rightarrow> rc = 0 | Inl x \<Rightarrow> False"
    by code_simp
  then have rg: "register_controllers (me_events example_env) (me_probe_rc example_env)
      (?m1\<lparr>task_pool := ?pool, g_tsc_rate := me_ticks_hz example_env\<rparr>) = Inr (0, ?m3)"
    by (auto split: sum.splits)
  from T[where menv = example_env and ?m1.0 = ?m1 and pool = ?pool and ?m3.0 = ?m3,
      THEN conjunct2, THEN conjunct2, THEN conjunct2] p e pool rg
  have m: "main example_env = io_loop ?env ?s0" and inv: "depth_inv ?s0" and idle: "idle_frees ?s0"
    by blast+
  have "case io_loop_while ?te (le_ticks1 ?env) (le_passes ?env) ?s0 of
          Some (Inr sd) \<Rightarrow> own_qpairs sd \<and> enough sd (map fst (g_devs sd)) (le_drain ?env) \<and>
                           depths sd = [(2, 4)] \<and> last (calls sd) = Print Probe_failed
        | _ \<Rightarrow> False"
    by code_simp
  then obtain sd where
    w: "io_loop_while ?te (le_ticks1 ?env) (le_passes ?env) ?s0 = Some (Inr sd)" and
    sd: "own_qpairs sd" "enough sd (map fst (g_devs sd)) (le_drain ?env)"
        "depths sd = [(2, 4)]" "last (calls sd) = Print Probe_failed"
    by (auto split: option.splits sum.splits)
  from T[where s = ?s0 and env = ?env and sd = sd, THEN conjunct2, THEN conjunct2, THEN conjunct1]
    inv w sd(1,2)
  obtain sr where r: "io_loop ?env ?s0 = Some (Inr (0, sr))" by blast
  from T[where s = ?s0 and env = ?env and rc = 0 and s' = sr, THEN conjunct1] inv idle r
  obtain s1 where z: "exit_code (Inr (0 :: int, sr)) = Some 0" "g_devs sr = []" "inflight sr = []" "idle_frees sr"
    "io_loop_while ?te (le_ticks1 ?env) (le_passes ?env) ?s0 = Some (Inr s1)"
    "drained_and_unregistered s1 sr"
    by blast
  from z(5) w have "s1 = sd" by simp
  with m r z sd have A: "\<exists>s' s1. main example_env = Some (Inr (0, s')) \<and> exit_code (Inr (0, s')) = Some 0 \<and>
      g_devs s' = [] \<and> inflight s' = [] \<and> idle_frees s' \<and>
      drained_and_unregistered s1 s' \<and> depths s1 = [(2, 4)] \<and>
      last (calls s1) = Print Probe_failed"
    by (intro exI[of _ sr] exI[of _ sd]) simp
  have "case poll_devs (map fst (g_devs entry_world)) (pe_io failing_pass) entry_world of
          Inr s1 \<Rightarrow> (case spdk_nvme_probe (pe_events failing_pass) (pe_probe_rc failing_pass) s1 of
                      Inr (prc, s2) \<Rightarrow> prc \<noteq> 0 | Inl x \<Rightarrow> False) | Inl x \<Rightarrow> False"
    by code_simp
  then obtain sa prc sb where
    f: "poll_devs (map fst (g_devs entry_world)) (pe_io failing_pass) entry_world = Inr sa"
       "spdk_nvme_probe (pe_events failing_pass) (pe_probe_rc failing_pass) sa = Inr (prc, sb)" "prc \<noteq> 0"
    by (auto split: sum.splits)
  from T[where s = entry_world and e = failing_pass and sa = sa and prc = prc and sb = sb
      and tsc_end = 1000 and next_stats_tsc = 0 and es = "[]", THEN conjunct2, THEN conjunct1] f
  have B: "io_loop_while 1000 0 [failing_pass] entry_world = Some (Inr (emit [Print Probe_failed] sb))"
    by blast
  from A B show ?thesis by simp
qed

end
